theory Spec2Isabelle
  imports Complex_Main "HOL-Library.List_Lexorder" "HOL-Library.Char_ord"
begin

section \<open>Audio.cpp: the positional-audio scheduler\<close>

text \<open>
  A shallow embedding of \<^verbatim>\<open>src/Audio.cpp\<close>. The file-scope globals of the anonymous
  namespace become the fields of one state record that every operation takes and
  returns. The C++ \<^verbatim>\<open>double\<close> is idealised as \<^typ>\<open>real\<close>: rounding, infinities and
  NaN are outside the model. Thread identities are natural numbers, and the thread
  that calls an operation is an explicit argument of it.
\<close>

subsection \<open>Point\<close>

text \<open>
  Modelled from the spec: \<^verbatim>\<open>Point.h\<close> is not part of the sources. The spec treats it as
  "a primitive 2D vector type with addition, scalar multiply, dot product, length";
  the default-constructed point is the origin.
\<close>

record Point =
  X :: real
  Y :: real

definition Point0 :: Point where
  "Point0 = \<lparr>X = 0, Y = 0\<rparr>"

definition P_add :: "Point \<Rightarrow> Point \<Rightarrow> Point" where
  "P_add p q = \<lparr>X = X p + X q, Y = Y p + Y q\<rparr>"

definition P_sub :: "Point \<Rightarrow> Point \<Rightarrow> Point" where
  "P_sub p q = \<lparr>X = X p - X q, Y = Y p - Y q\<rparr>"

definition P_scale :: "real \<Rightarrow> Point \<Rightarrow> Point" where
  "P_scale c p = \<lparr>X = c * X p, Y = c * Y p\<rparr>"

definition P_div :: "Point \<Rightarrow> real \<Rightarrow> Point" where
  "P_div p c = \<lparr>X = X p / c, Y = Y p / c\<rparr>"

definition Dot :: "Point \<Rightarrow> Point \<Rightarrow> real" where
  "Dot p q = X p * X q + Y p * Y q"

definition Length :: "Point \<Rightarrow> real" where
  "Length p = sqrt (X p * X p + Y p * Y p)"

subsection \<open>QueueEntry: the coalescer\<close>

record QueueEntry =
  sum_e :: Point
  speed :: real
  weight :: real

text \<open>The default-constructed entry: \<^verbatim>\<open>Point sum; double speed = 0.; double weight = 0.;\<close>\<close>

definition QueueEntry0 :: QueueEntry where
  "QueueEntry0 = \<lparr>sum_e = Point0, speed = 0, weight = 0\<rparr>"

text \<open>\<^verbatim>\<open>return weight ? (sum / weight) : sum;\<close>\<close>

definition Position :: "QueueEntry \<Rightarrow> Point" where
  "Position e = (if weight e \<noteq> 0 then P_div (sum_e e) (weight e) else sum_e e)"

definition Velocity :: "QueueEntry \<Rightarrow> Point" where
  "Velocity e =
     (let pos = Position e;
          len = Length pos
      in if len = 0 then pos else P_scale (speed e / len) pos)"

text \<open>\<^verbatim>\<open>QueueEntry::Add(const Point &position, const Point &velocity)\<close>\<close>

definition Add :: "Point \<Rightarrow> Point \<Rightarrow> QueueEntry \<Rightarrow> QueueEntry" where
  "Add position velocity e =
     (let d = 1 / max 1 (Dot position position)
      in \<lparr>sum_e = P_add (sum_e e) (P_scale d position),
          speed = speed e + d * sqrt d * Dot position velocity,
          weight = weight e + d\<rparr>)"

text \<open>\<^verbatim>\<open>QueueEntry::Add(const QueueEntry &other)\<close>\<close>

definition Add_entry :: "QueueEntry \<Rightarrow> QueueEntry \<Rightarrow> QueueEntry" where
  "Add_entry other e =
     \<lparr>sum_e = P_add (sum_e e) (sum_e other),
      speed = speed e + speed other,
      weight = weight e + weight other\<rparr>"

text \<open>A sequence of \<^verbatim>\<open>Add(position, velocity)\<close> calls on one entry, first call first.\<close>

fun Add_all :: "(Point \<times> Point) list \<Rightarrow> QueueEntry \<Rightarrow> QueueEntry" where
  "Add_all [] e = e"
| "Add_all ((p, v) # cs) e = Add_all cs (Add p v e)"

text \<open>
  The weight the spec gives a contribution: \<open>w = 1 / max(1, |position|\<^sup>2)\<close>. This
  definition follows the spec's words; the code computes it inline as \<^verbatim>\<open>d\<close>.
\<close>

definition spec_weight :: "Point \<Rightarrow> real" where
  "spec_weight p = 1 / max 1 ((Length p)\<^sup>2)"

text \<open>
  The velocity as the spec words it: \<open>Position().normalized() * averageSpeed\<close>, the
  average speed being the accumulated \<open>w * sqrt(w) * (position \<cdot> velocity)\<close> divided by
  the total weight. These definitions follow the spec's words, to be compared with
  \<open>Velocity\<close> above.
\<close>

definition normalized :: "Point \<Rightarrow> Point" where
  "normalized p = P_scale (1 / Length p) p"

definition spec_average_speed :: "(Point \<times> Point) list \<Rightarrow> real" where
  "spec_average_speed cs =
     (\<Sum>(p, v)\<leftarrow>cs. spec_weight p * sqrt (spec_weight p) * Dot p v) /
     (\<Sum>(p, v)\<leftarrow>cs. spec_weight p)"

definition spec_Velocity :: "(Point \<times> Point) list \<Rightarrow> Point" where
  "spec_Velocity cs =
     (let pos = Position (Add_all cs QueueEntry0)
      in if Length pos = 0 then pos else P_scale (spec_average_speed cs) (normalized pos))"

subsection \<open>std::map as a list of entries in ascending key order\<close>

text \<open>
  \<^verbatim>\<open>m[k].f(...)\<close>: apply \<open>f\<close> to the value stored under \<open>k\<close>, which \<^verbatim>\<open>operator[]\<close>
  first creates from the default \<open>d\<close> when the key is absent.
\<close>

fun map_modify :: "'k::linorder \<Rightarrow> 'v \<Rightarrow> ('v \<Rightarrow> 'v) \<Rightarrow> ('k \<times> 'v) list \<Rightarrow> ('k \<times> 'v) list" where
  "map_modify k d f [] = [(k, f d)]"
| "map_modify k d f ((k', v) # m) =
     (if k < k' then (k, f d) # (k', v) # m
      else if k = k' then (k', f v) # m
      else (k', v) # map_modify k d f m)"

text \<open>\<^verbatim>\<open>m.erase(m.find(k))\<close> for a key that was found.\<close>

definition map_erase :: "'k \<Rightarrow> ('k \<times> 'v) list \<Rightarrow> ('k \<times> 'v) list" where
  "map_erase k m = filter (\<lambda>kv. fst kv \<noteq> k) m"

text \<open>The representation invariant of a \<^verbatim>\<open>std::map\<close>: keys strictly ascending.\<close>

definition map_wf :: "('k::linorder \<times> 'v) list \<Rightarrow> bool" where
  "map_wf m = sorted_wrt (<) (map fst m)"

subsection \<open>Sound, Source and the channel backend\<close>

text \<open>
  Modelled from the spec: \<^verbatim>\<open>Sound.h\<close> is not part of the sources. The spec gives a sound
  "an opaque decoded-buffer handle, a looping flag"; a sound that a lookup creates has
  an empty (zero) buffer. A \<^verbatim>\<open>const Sound *\<close> is an address, \<open>0\<close> being \<^verbatim>\<open>nullptr\<close>; the
  state's \<open>heap\<close> gives the object at an address.
\<close>

record Sound =
  Buffer :: nat
  IsLooping :: bool

definition Sound0 :: Sound where
  "Sound0 = \<lparr>Buffer = 0, IsLooping = False\<rparr>"

type_synonym sound_ptr = nat

record Source =
  sound :: sound_ptr
  source :: nat

text \<open>
  The calls the code makes to OpenAL, in the order it makes them, are recorded in the
  state's \<open>al_log\<close>. What the device answers is an input: \<open>al_playing\<close> tells for each
  source whether \<^verbatim>\<open>alGetSourcei(id, AL_SOURCE_STATE, ...)\<close> reports \<^verbatim>\<open>AL_PLAYING\<close>, and
  \<open>al_gen\<close> lists the identifiers that successive \<^verbatim>\<open>alGenSources\<close> calls hand out
  (the call fails, leaving the identifier \<open>0\<close>, once the list is used up).
\<close>

datatype al_call =
    alListenerf_GAIN real
  | alListener3f_POSITION real real real
  | alSourcef_PITCH nat real
  | alSourcef_GAIN nat real
  | alSourcei_LOOPING nat bool
  | alSourcei_BUFFER nat nat
  | alSource3f_POSITION nat real real real
  | alSource3f_VELOCITY nat real real real
  | alSourceStop nat
  | alSourcePlay nat
  | alGenSources nat
  | alGetSourcei_STATE nat

text \<open>
  A ghost trace of the synchronisation the code performs: taking and releasing
  \<^verbatim>\<open>audioMutex\<close> (a \<^verbatim>\<open>unique_lock\<close> and the end of its scope), and each statement that
  reads or writes the map \<^verbatim>\<open>deferred\<close>.
\<close>

datatype sync_event = Acquire | Release | Touch_deferred

record audio =
  volume :: real
  mainThreadID :: nat
  queue :: "(sound_ptr \<times> QueueEntry) list"
  deferred :: "(sound_ptr \<times> QueueEntry) list"
  sounds :: "(string \<times> Sound) list"
  sources :: "Source list"
  recycledSources :: "nat list"
  maxSources :: nat
  loadQueue :: "string list"
  listener :: Point
  listenerVelocity :: Point
  heap :: "sound_ptr \<Rightarrow> Sound"
  al_playing :: "nat \<Rightarrow> bool"
  al_gen :: "nat list"
  al_log :: "al_call list"
  sync :: "sync_event list"

subsection \<open>The facade\<close>

text \<open>
  \<^verbatim>\<open>Audio::Init\<close>. Whether the device opens and the context can be made current, and
  the paths that \<^verbatim>\<open>Files::RecursiveList\<close> appends to \<^verbatim>\<open>loadQueue\<close>, are inputs; a thrown
  \<^verbatim>\<open>runtime_error\<close> is the left summand. The loader thread that \<open>Init\<close> starts when
  the list is not empty runs \<open>Load\<close> below.
\<close>

definition Init :: "bool \<Rightarrow> bool \<Rightarrow> string list \<Rightarrow> nat \<Rightarrow> audio \<Rightarrow> string + audio" where
  "Init device_ok context_ok paths tid st =
     (if \<not> device_ok then Inl ''Unable to open audio device!''
      else if \<not> context_ok then Inl ''Unable to create audio context!''
      else Inr (st\<lparr>al_log := al_log st @ [alListener3f_POSITION 0 0 0],
                   mainThreadID := tid,
                   loadQueue := loadQueue st @ paths\<rparr>))"

text \<open>\<^verbatim>\<open>Audio::Progress\<close>; the sizes are converted to \<^verbatim>\<open>double\<close> before the division.\<close>

definition Progress :: "audio \<Rightarrow> real" where
  "Progress st =
     (if loadQueue st = [] then 1
      else (let done = real (length (sounds st));
                total = done + real (length (loadQueue st))
            in done / total))"

text \<open>
  \<^verbatim>\<open>Audio::Get\<close>, as far as the table goes: \<^verbatim>\<open>sounds[name]\<close> under the lock creates a
  default entry when the name has none. The pointer it returns is the address of that
  entry, which this model of the table does not hold.
\<close>

definition Get :: "string \<Rightarrow> audio \<Rightarrow> audio" where
  "Get name st =
     st\<lparr>sounds := map_modify name Sound0 (\<lambda>s. s) (sounds st),
        sync := sync st @ [Acquire, Release]\<rparr>"

definition SetVolume :: "real \<Rightarrow> audio \<Rightarrow> audio" where
  "SetVolume level st =
     st\<lparr>volume := min 1 (max 0 level), al_log := al_log st @ [alListenerf_GAIN level]\<rparr>"

text \<open>\<^verbatim>\<open>Audio::Update\<close>: the loop over \<^verbatim>\<open>deferred\<close>, then \<^verbatim>\<open>deferred.clear()\<close>.\<close>

fun merge_deferred ::
  "(sound_ptr \<times> QueueEntry) list \<Rightarrow> (sound_ptr \<times> QueueEntry) list \<Rightarrow> (sound_ptr \<times> QueueEntry) list"
where
  "merge_deferred [] q = q"
| "merge_deferred ((k, e) # ds) q = merge_deferred ds (map_modify k QueueEntry0 (Add_entry e) q)"

definition Update :: "Point \<Rightarrow> Point \<Rightarrow> audio \<Rightarrow> audio" where
  "Update listenerPosition velocity st =
     st\<lparr>listener := listenerPosition,
        listenerVelocity := velocity,
        queue := merge_deferred (deferred st) (queue st),
        deferred := [],
        sync := sync st @ [Touch_deferred, Touch_deferred]\<rparr>"

text \<open>
  \<^verbatim>\<open>Audio::Play(sound, position, velocity)\<close>, called by thread \<open>tid\<close>. The lock is taken
  in the branch of the other threads only, as in the source.
\<close>

definition Play :: "sound_ptr \<Rightarrow> Point \<Rightarrow> Point \<Rightarrow> nat \<Rightarrow> audio \<Rightarrow> audio" where
  "Play sptr position velocity tid st =
     (if sptr = 0 \<or> Buffer (heap st sptr) = 0 \<or> volume st = 0 then st
      else if tid = mainThreadID st then
        st\<lparr>queue := map_modify sptr QueueEntry0
                        (Add (P_sub position (listener st)) (P_sub velocity (listenerVelocity st)))
                        (queue st)\<rparr>
      else
        st\<lparr>deferred := map_modify sptr QueueEntry0
                           (Add (P_sub position (listener st)) (P_sub velocity (listenerVelocity st)))
                           (deferred st),
           sync := sync st @ [Acquire, Touch_deferred, Release]\<rparr>)"

text \<open>\<^verbatim>\<open>Audio::Play(sound)\<close>: at the listener, with no velocity.\<close>

definition Play_here :: "sound_ptr \<Rightarrow> nat \<Rightarrow> audio \<Rightarrow> audio" where
  "Play_here sptr tid st = Play sptr (listener st) Point0 tid st"

text \<open>The calls of the \<^verbatim>\<open>Source\<close> constructor and of \<^verbatim>\<open>Source::Move\<close>.\<close>

definition Source_init :: "Sound \<Rightarrow> nat \<Rightarrow> al_call list" where
  "Source_init s src =
     [alSourcef_PITCH src 1, alSourcef_GAIN src 1,
      alSourcei_LOOPING src (IsLooping s), alSourcei_BUFFER src (Buffer s)]"

definition Move :: "Source \<Rightarrow> Point \<Rightarrow> Point \<Rightarrow> al_call list" where
  "Move s position velocity =
     [alSource3f_POSITION (source s) (X position * 0.001) (Y position * 0.001) 0,
      alSource3f_VELOCITY (source s) (X velocity * 0.001) (Y velocity * 0.001) 0]"

text \<open>
  The first loop of \<^verbatim>\<open>Audio::Step\<close>, over the active sources, with the local
  \<^verbatim>\<open>newSources\<close> as an accumulator.
\<close>

fun advance_loop :: "Source list \<Rightarrow> Source list \<Rightarrow> audio \<Rightarrow> Source list \<times> audio" where
  "advance_loop [] newSources st = (newSources, st)"
| "advance_loop (s # rest) newSources st =
     (if IsLooping (heap st (sound s)) then
        (case map_of (queue st) (sound s) of
           Some e \<Rightarrow>
             advance_loop rest (newSources @ [s])
               (st\<lparr>al_log := al_log st @ Move s (Position e) (Velocity e),
                   queue := map_erase (sound s) (queue st)\<rparr>)
         | None \<Rightarrow>
             advance_loop rest newSources
               (st\<lparr>al_log := al_log st @ [alSourceStop (source s)],
                   recycledSources := recycledSources st @ [source s]\<rparr>))
      else if al_playing st (source s) then
        advance_loop rest (newSources @ [s])
          (st\<lparr>al_log := al_log st @ [alGetSourcei_STATE (source s)]\<rparr>)
      else
        advance_loop rest newSources
          (st\<lparr>al_log := al_log st @ [alGetSourcei_STATE (source s)],
              recycledSources := recycledSources st @ [source s]\<rparr>))"

text \<open>The loop and the \<^verbatim>\<open>newSources.swap(sources)\<close> that follows it.\<close>

definition advance_phase :: "audio \<Rightarrow> audio" where
  "advance_phase st =
     (case advance_loop (sources st) [] st of (newSources, st') \<Rightarrow> st'\<lparr>sources := newSources\<rparr>)"

text \<open>
  The end of the body of the second loop: \<^verbatim>\<open>sources.emplace_back(it.first, source)\<close>,
  which runs the \<^verbatim>\<open>Source\<close> constructor, then \<^verbatim>\<open>Move\<close> and \<^verbatim>\<open>alSourcePlay\<close>.
\<close>

definition start_calls :: "(sound_ptr \<Rightarrow> Sound) \<Rightarrow> sound_ptr \<times> QueueEntry \<Rightarrow> nat \<Rightarrow> al_call list" where
  "start_calls h it src =
     Source_init (h (fst it)) src @
     Move \<lparr>sound = fst it, source = src\<rparr> (Position (snd it)) (Velocity (snd it)) @
     [alSourcePlay src]"

definition start_source :: "sound_ptr \<times> QueueEntry \<Rightarrow> nat \<Rightarrow> audio \<Rightarrow> audio" where
  "start_source it src st =
     st\<lparr>sources := sources st @ [\<lparr>sound = fst it, source = src\<rparr>],
        al_log := al_log st @ start_calls (heap st) it src\<rparr>"

text \<open>
  The second loop, over the entries left in \<^verbatim>\<open>queue\<close>. A \<^verbatim>\<open>break\<close> returns the state
  as it is. \<^verbatim>\<open>alGenSources\<close> writes the next identifier of \<open>al_gen\<close> into \<^verbatim>\<open>source\<close>, or
  leaves it \<open>0\<close> when there is none.
\<close>

fun allocate_loop :: "(sound_ptr \<times> QueueEntry) list \<Rightarrow> audio \<Rightarrow> audio" where
  "allocate_loop [] st = st"
| "allocate_loop (it # rest) st =
     (if recycledSources st = [] then
        (if maxSources st \<le> length (sources st) then st
         else
           (let src = (case al_gen st of [] \<Rightarrow> 0 | g # gs \<Rightarrow> g);
                st1 = st\<lparr>al_gen := tl (al_gen st), al_log := al_log st @ [alGenSources src]\<rparr>
            in if src = 0 then st1\<lparr>maxSources := length (sources st1)\<rparr>
               else allocate_loop rest (start_source it src st1)))
      else
        (let src = last (recycledSources st);
             st1 = st\<lparr>recycledSources := butlast (recycledSources st)\<rparr>
         in allocate_loop rest (start_source it src st1)))"

text \<open>The loop and the \<^verbatim>\<open>queue.clear()\<close> that follows it.\<close>

definition allocate_phase :: "audio \<Rightarrow> audio" where
  "allocate_phase st = (allocate_loop (queue st) st)\<lparr>queue := []\<rparr>"

text \<open>\<^verbatim>\<open>Audio::Step\<close>, called by thread \<open>tid\<close>.\<close>

definition Step :: "nat \<Rightarrow> audio \<Rightarrow> audio" where
  "Step tid st = (if tid \<noteq> mainThreadID st then st else allocate_phase (advance_phase st))"

subsection \<open>The two phases as the spec describes them\<close>

text \<open>
  The definitions of this subsection follow the spec's words; the theorems compare them
  with \<open>advance_phase\<close> and \<open>allocate_phase\<close>.

  A channel continues when its sound is looping and the queue holds an entry for the
  sound, or when its sound is not looping and the backend reports it playing.
\<close>

definition spec_retained :: "audio \<Rightarrow> Source \<Rightarrow> bool" where
  "spec_retained st s =
     (if IsLooping (heap st (sound s)) then sound s \<in> fst ` set (queue st)
      else al_playing st (source s))"

text \<open>
  The backend calls for one channel in the advance phase: a continuing looping channel
  has its position and its velocity set to those of its entry (scaled by 0.001, at
  height 0), a looping channel without an entry is stopped, and a channel that is not
  looping is asked for its state.
\<close>

definition advance_calls :: "audio \<Rightarrow> Source \<Rightarrow> al_call list" where
  "advance_calls st s =
     (if IsLooping (heap st (sound s)) then
        (case map_of (queue st) (sound s) of
           Some e \<Rightarrow>
             [alSource3f_POSITION (source s) (X (Position e) * 0.001) (Y (Position e) * 0.001) 0,
              alSource3f_VELOCITY (source s) (X (Velocity e) * 0.001) (Y (Velocity e) * 0.001) 0]
         | None \<Rightarrow> [alSourceStop (source s)])
      else [alGetSourcei_STATE (source s)])"

text \<open>The looping sounds that the channels of a list are bound to.\<close>

definition looping_sounds :: "audio \<Rightarrow> Source list \<Rightarrow> sound_ptr list" where
  "looping_sounds st ss = map sound (filter (\<lambda>s. IsLooping (heap st (sound s))) ss)"

text \<open>
  The identifiers in the order in which the allocate phase takes them: the recycled
  ones, last recycled first, then the ones the backend hands out before its first
  refusal. The flag tells that the identifier is a new one from the backend.
\<close>

definition spec_ids :: "audio \<Rightarrow> (bool \<times> nat) list" where
  "spec_ids st =
     map (Pair False) (rev (recycledSources st)) @
     map (Pair True) (takeWhile (\<lambda>g. g \<noteq> 0) (al_gen st))"

text \<open>
  How many of \<open>nq\<close> entries get a channel, with \<open>nr\<close> recycled identifiers, \<open>n\<close> active
  channels, the cap \<open>cap\<close> and \<open>nh\<close> identifiers that the backend still hands out:
  all recycled identifiers may be used, new ones only while the number of active
  channels is below the cap.
\<close>

definition alloc_count :: "nat \<Rightarrow> nat \<Rightarrow> nat \<Rightarrow> nat \<Rightarrow> nat \<Rightarrow> nat" where
  "alloc_count nq nr n cap nh = min nq (nr + min (cap - (n + nr)) nh)"

definition spec_allocated :: "(sound_ptr \<times> QueueEntry) list \<Rightarrow> audio \<Rightarrow> nat" where
  "spec_allocated q st =
     alloc_count (length q) (length (recycledSources st)) (length (sources st)) (maxSources st)
       (length (takeWhile (\<lambda>g. g \<noteq> 0) (al_gen st)))"

text \<open>
  The backend refuses when an entry is left over although the number of active
  channels is still below the cap.
\<close>

definition spec_refused :: "(sound_ptr \<times> QueueEntry) list \<Rightarrow> audio \<Rightarrow> bool" where
  "spec_refused q st =
     (spec_allocated q st < length q \<and>
      length (sources st) + spec_allocated q st < maxSources st)"

text \<open>The state the spec's allocate phase leaves for the entries \<open>q\<close>, but for \<open>queue\<close>.\<close>

definition spec_allocate :: "(sound_ptr \<times> QueueEntry) list \<Rightarrow> audio \<Rightarrow> audio" where
  "spec_allocate q st =
     (let k = spec_allocated q st;
          ids = take k (spec_ids st);
          its = take k q
      in st\<lparr>sources := sources st @ map2 (\<lambda>it i. \<lparr>sound = fst it, source = snd i\<rparr>) its ids,
            recycledSources := take (length (recycledSources st) - k) (recycledSources st),
            maxSources := (if spec_refused q st then length (sources st) + k else maxSources st),
            al_gen := drop (k - length (recycledSources st) + (if spec_refused q st then 1 else 0))
                        (al_gen st),
            al_log := al_log st @
              concat (map2 (\<lambda>it i. (if fst i then [alGenSources (snd i)] else []) @
                                     start_calls (heap st) it (snd i)) its ids) @
              (if spec_refused q st then [alGenSources 0] else [])\<rparr>)"

text \<open>
  The progress as the spec words it: the number of assets loaded so far, that is of
  table entries whose buffer is populated, over that number plus the number of paths
  still queued.
\<close>

definition spec_loadedCount :: "audio \<Rightarrow> nat" where
  "spec_loadedCount st = length (filter (\<lambda>ns. Buffer (snd ns) \<noteq> 0) (sounds st))"

definition spec_Progress :: "audio \<Rightarrow> real" where
  "spec_Progress st =
     (if loadQueue st = [] then 1
      else real (spec_loadedCount st) /
           (real (spec_loadedCount st) + real (length (loadQueue st))))"

subsection \<open>The loader thread\<close>

text \<open>
  \<^verbatim>\<open>path.rfind(pat)\<close>: the last position at which \<open>pat\<close> occurs in the string, \<open>None\<close>
  (\<^verbatim>\<open>string::npos\<close>) when it occurs nowhere. The scan runs left to right and keeps the
  last position that matched.
\<close>

fun rfind_scan :: "string \<Rightarrow> string \<Rightarrow> nat \<Rightarrow> nat option \<Rightarrow> nat option" where
  "rfind_scan pat [] i found = (if pat = [] then Some i else found)"
| "rfind_scan pat (c # cs) i found =
     rfind_scan pat cs (Suc i) (if take (length pat) (c # cs) = pat then Some i else found)"

definition rfind :: "string \<Rightarrow> string \<Rightarrow> nat option" where
  "rfind pat s = rfind_scan pat s 0 None"

text \<open>\<^verbatim>\<open>Name(path)\<close>; the local \<^verbatim>\<open>end\<close> is \<open>endp\<close> here.\<close>

definition Name :: "string \<Rightarrow> string" where
  "Name path =
     (if length path < 4 \<or> take 4 (drop (length path - 4) path) \<noteq> ''.wav'' then []
      else
        (case rfind ''sounds/'' path of
           None \<Rightarrow> []
         | Some i \<Rightarrow>
             (let start = i + 7;
                  endp = length path - 4;
                  endp = (if path ! (endp - 1) = CHR ''~'' then endp - 1 else endp)
              in take (endp - start) (drop start path))))"

text \<open>
  \<^verbatim>\<open>Load()\<close>, the body of the loader thread, run on its own. \<^verbatim>\<open>Sound::Load\<close> is not
  part of the sources and is the parameter \<open>Sound_Load\<close>. \<^verbatim>\<open>pop_back()\<close> on an empty
  vector is undefined behaviour: the result is \<open>None\<close> there.
\<close>

function Load_loop :: "(string \<Rightarrow> Sound \<Rightarrow> Sound) \<Rightarrow> string \<Rightarrow> audio \<Rightarrow> audio option" where
  "Load_loop Sound_Load path st =
     (let name = Name path;
          st1 = (if name \<noteq> []
                 then st\<lparr>sounds := map_modify name Sound0 (Sound_Load path) (sounds st)\<rparr>
                 else st)
      in if loadQueue st1 = [] then None
         else
           (let st2 = st1\<lparr>loadQueue := butlast (loadQueue st1),
                         sync := sync st1 @ [Acquire]\<rparr>
            in if loadQueue st2 = [] then Some (st2\<lparr>sync := sync st2 @ [Release]\<rparr>)
               else Load_loop Sound_Load (last (loadQueue st2))
                      (st2\<lparr>sync := sync st2 @ [Release]\<rparr>)))"
  by pat_completeness auto
termination
  by (relation "measure (\<lambda>(f, p, st). length (loadQueue st))") (auto simp: Let_def)

declare Load_loop.simps [simp del]

definition Load :: "(string \<Rightarrow> Sound \<Rightarrow> Sound) \<Rightarrow> audio \<Rightarrow> audio option" where
  "Load Sound_Load st = Load_loop Sound_Load [] st"

text \<open>
  Whether every access to \<^verbatim>\<open>deferred\<close> in a trace happens with the mutex held; \<open>held\<close>
  is the state of the mutex before the trace.
\<close>

fun guarded :: "bool \<Rightarrow> sync_event list \<Rightarrow> bool" where
  "guarded held [] = True"
| "guarded held (Acquire # tr) = guarded True tr"
| "guarded held (Release # tr) = guarded False tr"
| "guarded held (Touch_deferred # tr) = (held \<and> guarded held tr)"

subsection \<open>Example states\<close>

text \<open>
  Concrete states at which the theorems below are instantiated: the state before
  \<open>Init\<close>, a sound table on the heap, and a state with two active channels.
\<close>

definition audio0 :: audio where
  "audio0 =
     \<lparr>volume = 1, mainThreadID = 0, queue = [], deferred = [], sounds = [], sources = [],
      recycledSources = [], maxSources = 255, loadQueue = [], listener = Point0,
      listenerVelocity = Point0, heap = (\<lambda>p. Sound0), al_playing = (\<lambda>i. False), al_gen = [],
      al_log = [], sync = []\<rparr>"

definition ex_heap :: "sound_ptr \<Rightarrow> Sound" where
  "ex_heap p = (if p = 1 then \<lparr>Buffer = 11, IsLooping = True\<rparr>
                else if p = 2 then \<lparr>Buffer = 12, IsLooping = False\<rparr>
                else if p = 3 then \<lparr>Buffer = 13, IsLooping = True\<rparr>
                else if p = 4 then \<lparr>Buffer = 14, IsLooping = False\<rparr>
                else Sound0)"

definition ex_playing :: audio where
  "ex_playing = audio0\<lparr>mainThreadID := 1, heap := ex_heap,
      sources := [\<lparr>sound = 1, source = 7\<rparr>, \<lparr>sound = 2, source = 8\<rparr>]\<rparr>"

definition ex_queued :: audio where
  "ex_queued = ex_playing\<lparr>queue := [(1, Add \<lparr>X = 3, Y = 4\<rparr> Point0 QueueEntry0),
                                       (4, Add \<lparr>X = 0, Y = 0\<rparr> Point0 QueueEntry0)],
                           recycledSources := [9]\<rparr>"

text \<open>
  Two requests from thread 2, which is not the main thread, for the sounds 1 and 3.
\<close>

definition ex_deferred :: audio where
  "ex_deferred =
     Play 3 \<lparr>X = 0, Y = 2\<rparr> Point0 2 (Play 1 \<lparr>X = 1, Y = 0\<rparr> Point0 2 ex_queued)"

text \<open>
  Four active channels: a looping sound with a request, a sound that still plays, a
  looping sound without a request and a sound that has stopped.
\<close>

definition ex_frame :: audio where
  "ex_frame =
     ex_queued\<lparr>sources := [\<lparr>sound = 1, source = 7\<rparr>, \<lparr>sound = 2, source = 8\<rparr>,
                           \<lparr>sound = 3, source = 9\<rparr>, \<lparr>sound = 4, source = 10\<rparr>],
               queue := [(1, Add \<lparr>X = 3, Y = 4\<rparr> \<lparr>X = 5, Y = 0\<rparr> QueueEntry0),
                         (4, Add \<lparr>X = 0, Y = 0\<rparr> Point0 QueueEntry0)],
               recycledSources := [],
               al_playing := (\<lambda>i. i = 8)\<rparr>"

text \<open>
  A looping sound on channel 7 and a sound that still plays on channel 8, with an
  empty queue.
\<close>

definition ex_vol :: audio where
  "ex_vol = ex_playing\<lparr>al_playing := (\<lambda>i. i = 8)\<rparr>"

text \<open>Two paths wait to be loaded and a lookup has created one entry, not loaded.\<close>

definition ex_lookup :: audio where
  "ex_lookup = Get ''laser'' (audio0\<lparr>loadQueue := [''sounds/a.wav'', ''sounds/b.wav'']\<rparr>)"

text \<open>
  Three new requests and no channel yet. In \<open>ex_refuse\<close> the backend hands out two
  identifiers and refuses the third; in \<open>ex_cap\<close> it would hand out three and the cap
  is 2.
\<close>

definition ex_refuse :: audio where
  "ex_refuse =
     audio0\<lparr>mainThreadID := 1, heap := ex_heap,
            queue := [(2, Add Point0 Point0 QueueEntry0), (3, Add Point0 Point0 QueueEntry0),
                      (4, Add Point0 Point0 QueueEntry0)],
            al_gen := [5, 6]\<rparr>"

definition ex_cap :: audio where
  "ex_cap = ex_refuse\<lparr>maxSources := 2, al_gen := [5, 6, 7]\<rparr>"

text \<open>One sound is loaded and one path waits.\<close>

definition ex_loaded :: audio where
  "ex_loaded =
     audio0\<lparr>sounds := [(''a'', \<lparr>Buffer = 3, IsLooping = False\<rparr>)],
            loadQueue := [''sounds/b.wav'']\<rparr>"

text \<open>Two requests for one sound, both one unit to the right and moving away at speed 1.\<close>

definition ex_twice :: "(Point \<times> Point) list" where
  "ex_twice = [(\<lparr>X = 1, Y = 0\<rparr>, \<lparr>X = 1, Y = 0\<rparr>), (\<lparr>X = 1, Y = 0\<rparr>, \<lparr>X = 1, Y = 0\<rparr>)]"

text \<open>Three requests at the distances 5, 2 and 1.\<close>

definition ex_three :: "(Point \<times> Point) list" where
  "ex_three = [(\<lparr>X = 3, Y = 4\<rparr>, Point0), (\<lparr>X = 0, Y = 2\<rparr>, Point0), (\<lparr>X = 1, Y = 0\<rparr>, Point0)]"

section \<open>The coalescer\<close>

lemma Length_sq: "(Length p)\<^sup>2 = Dot p p"
  by (simp add: Length_def Dot_def power2_eq_square[symmetric])

lemma spec_weight_code: "spec_weight p = 1 / max 1 (Dot p p)"
  by (simp add: spec_weight_def Length_sq)

lemma spec_weight_pos: "0 < spec_weight p"
proof -
  have "(0::real) < max 1 ((Length p)\<^sup>2)"
    by (rule less_le_trans[of 0 1]) simp_all
  then show ?thesis by (simp add: spec_weight_def)
qed

lemma spec_weight_floor: "(if Length p \<le> 1 then spec_weight p = 1 else spec_weight p < 1)"
proof (cases "Length p \<le> 1")
  case True
  have "0 \<le> Length p" by (simp add: Length_def)
  with True have "(Length p)\<^sup>2 \<le> 1" by (simp add: power_le_one)
  with True show ?thesis by (simp add: spec_weight_def max_absorb1)
next
  case False
  then have "1 < Length p" by simp
  then have "1 < (Length p)\<^sup>2" by (simp add: power2_eq_square less_1_mult)
  with False show ?thesis by (simp add: spec_weight_def max_absorb2)
qed

lemma Add_fields:
  "weight (Add p v e) = weight e + spec_weight p"
  "X (sum_e (Add p v e)) = X (sum_e e) + spec_weight p * X p"
  "Y (sum_e (Add p v e)) = Y (sum_e e) + spec_weight p * Y p"
  "speed (Add p v e) = speed e + spec_weight p * sqrt (spec_weight p) * Dot p v"
  by (simp_all add: Add_def Let_def P_add_def P_scale_def spec_weight_code)

text \<open>What a run of \<open>Add\<close> calls leaves in the three fields of an entry.\<close>

lemma Add_all_fields:
  "weight (Add_all cs e) = weight e + (\<Sum>(p, v)\<leftarrow>cs. spec_weight p) \<and>
   X (sum_e (Add_all cs e)) = X (sum_e e) + (\<Sum>(p, v)\<leftarrow>cs. spec_weight p * X p) \<and>
   Y (sum_e (Add_all cs e)) = Y (sum_e e) + (\<Sum>(p, v)\<leftarrow>cs. spec_weight p * Y p) \<and>
   speed (Add_all cs e) =
     speed e + (\<Sum>(p, v)\<leftarrow>cs. spec_weight p * sqrt (spec_weight p) * Dot p v)"
proof (induction cs arbitrary: e)
  case Nil
  show ?case by simp
next
  case (Cons c cs)
  obtain p v where c: "c = (p, v)" by (cases c)
  show ?case
    using Cons.IH[of "Add p v e"] by (simp add: c Add_fields)
qed

text \<open>The total weight is zero for the entry that received no request, and only for it.\<close>

lemma sum_weights_pos: "cs \<noteq> [] \<Longrightarrow> 0 < (\<Sum>(p, v)\<leftarrow>cs. spec_weight p)"
proof (induction cs)
  case Nil
  then show ?case by simp
next
  case (Cons c cs)
  obtain p v where c: "c = (p, v)" by (cases c)
  have "0 \<le> (\<Sum>(p, v)\<leftarrow>cs. spec_weight p)"
    using Cons.IH by (cases "cs = []") (simp_all add: less_imp_le)
  then show ?case using spec_weight_pos[of p] by (simp add: c)
qed

text \<open>
  C1. The weight of a contribution at \<open>position\<close> is \<open>1 / max(1, |position|\<^sup>2)\<close>, which
  is exactly 1 when \<open>|position| \<le> 1\<close> and less otherwise. After any sequence of
  \<open>Add(position, velocity)\<close> calls on a fresh entry the entry's weight is the sum of
  these weights, and \<open>Position()\<close> is the weighted average of the positions: the sum
  of the weighted positions divided by the total weight, in each coordinate. When the
  total weight is zero, \<open>Position()\<close> is the accumulated sum itself.
\<close>

theorem Position_weighted_average:
  "spec_weight p = 1 / max 1 (Dot p p) \<and>
   (if Length p \<le> 1 then spec_weight p = 1 else spec_weight p < 1) \<and>
   weight (Add_all cs QueueEntry0) = (\<Sum>(p, v)\<leftarrow>cs. spec_weight p) \<and>
   Position (Add_all cs QueueEntry0) =
     (if (\<Sum>(p, v)\<leftarrow>cs. spec_weight p) = 0 then sum_e (Add_all cs QueueEntry0)
      else \<lparr>X = (\<Sum>(p, v)\<leftarrow>cs. spec_weight p * X p) / (\<Sum>(p, v)\<leftarrow>cs. spec_weight p),
            Y = (\<Sum>(p, v)\<leftarrow>cs. spec_weight p * Y p) / (\<Sum>(p, v)\<leftarrow>cs. spec_weight p)\<rparr>)"
proof -
  let ?e = "Add_all cs QueueEntry0"
  have w: "weight ?e = (\<Sum>(p, v)\<leftarrow>cs. spec_weight p)"
    and x: "X (sum_e ?e) = (\<Sum>(p, v)\<leftarrow>cs. spec_weight p * X p)"
    and y: "Y (sum_e ?e) = (\<Sum>(p, v)\<leftarrow>cs. spec_weight p * Y p)"
    using Add_all_fields[of cs QueueEntry0] by (simp_all add: QueueEntry0_def Point0_def)
  have pos: "Position ?e =
      (if weight ?e = 0 then sum_e ?e
       else \<lparr>X = X (sum_e ?e) / weight ?e, Y = Y (sum_e ?e) / weight ?e\<rparr>)"
    by (simp add: Position_def P_div_def)
  show ?thesis
    using spec_weight_code[of p] spec_weight_floor[of p] w pos unfolding x y w by simp
qed

lemma ex_three_weights:
  "spec_weight \<lparr>X = 3, Y = 4\<rparr> = 1 / 25"
  "spec_weight \<lparr>X = 0, Y = 2\<rparr> = 1 / 4"
  "spec_weight \<lparr>X = 1, Y = 0\<rparr> = 1"
  by (simp_all add: spec_weight_code Dot_def)

theorem Position_weighted_average_witness:
  "spec_weight \<lparr>X = 3, Y = 4\<rparr> = 1 / 25 \<and>
   spec_weight \<lparr>X = 1, Y = 0\<rparr> = 1 \<and>
   weight (Add_all ex_three QueueEntry0) = 129 / 100 \<and>
   Position (Add_all ex_three QueueEntry0) = \<lparr>X = 112 / 129, Y = 66 / 129\<rparr> \<and>
   Position (Add_all [] QueueEntry0) = Point0"
  using Position_weighted_average [of "\<lparr>X = 3, Y = 4\<rparr>" ex_three]
    Position_weighted_average [of "\<lparr>X = 1, Y = 0\<rparr>" "[]"]
  by (simp add: ex_three_def Dot_def Length_def QueueEntry0_def Point0_def ex_three_weights)

lemma Velocity_normalized:
  "Velocity e =
     (if Length (Position e) = 0 then Position e
      else P_scale (speed e) (normalized (Position e)))"
  by (simp add: Velocity_def Let_def normalized_def P_scale_def)

text \<open>
  C2, as the claim states it, fails: \<open>Velocity()\<close> does not divide the accumulated
  speed by the total weight. Two requests at \<open>(1, 0)\<close> that both move away at radial
  speed 1 have the average radial speed 1, and \<open>Velocity()\<close> is \<open>(2, 0)\<close>.
\<close>

theorem Velocity_average_counterexample:
  "Velocity (Add_all ex_twice QueueEntry0) = \<lparr>X = 2, Y = 0\<rparr> \<and>
   spec_average_speed ex_twice = 1 \<and>
   spec_Velocity ex_twice = \<lparr>X = 1, Y = 0\<rparr> \<and>
   Velocity (Add_all ex_twice QueueEntry0) \<noteq> spec_Velocity ex_twice"
  by (simp add: ex_twice_def spec_Velocity_def spec_average_speed_def normalized_def
      Velocity_def Position_def Add_def QueueEntry0_def Point0_def P_add_def P_scale_def
      P_div_def Dot_def Length_def spec_weight_def Let_def)

text \<open>
  C2, amended. After any sequence of \<open>Add(position, velocity)\<close> calls on a fresh entry,
  \<open>Velocity()\<close> is \<open>Position().normalized()\<close> times the accumulated speed, the sum
  of \<open>w * sqrt(w) * (position \<cdot> velocity)\<close> over the contributions, which is not
  divided by the total weight; when \<open>Position()\<close> has length zero, \<open>Velocity()\<close> is
  that position.
\<close>

theorem Velocity_accumulated_speed:
  "Velocity (Add_all cs QueueEntry0) =
     (let pos = Position (Add_all cs QueueEntry0);
          total = (\<Sum>(p, v)\<leftarrow>cs. spec_weight p * sqrt (spec_weight p) * Dot p v)
      in if Length pos = 0 then pos else P_scale total (normalized pos))"
proof -
  have "speed (Add_all cs QueueEntry0) =
      (\<Sum>(p, v)\<leftarrow>cs. spec_weight p * sqrt (spec_weight p) * Dot p v)"
    using Add_all_fields[of cs QueueEntry0] by (simp add: QueueEntry0_def)
  then show ?thesis
    by (simp add: Velocity_normalized Let_def)
qed

theorem Velocity_accumulated_speed_witness:
  "Velocity (Add_all ex_twice QueueEntry0) = \<lparr>X = 2, Y = 0\<rparr> \<and>
   Velocity (Add_all [(Point0, \<lparr>X = 1, Y = 0\<rparr>)] QueueEntry0) = Point0"
proof -
  have pos: "Position (Add_all ex_twice QueueEntry0) = \<lparr>X = 1, Y = 0\<rparr>"
    "Position (Add_all [(Point0, \<lparr>X = 1, Y = 0\<rparr>)] QueueEntry0) = Point0"
    by (simp_all add: ex_twice_def Position_def Add_def QueueEntry0_def Point0_def P_add_def
        P_scale_def P_div_def Dot_def Let_def)
  have w: "spec_weight \<lparr>X = 1, Y = 0\<rparr> = 1"
    by (simp add: spec_weight_code Dot_def)
  show ?thesis
    using Velocity_accumulated_speed [of ex_twice]
      Velocity_accumulated_speed [of "[(Point0, \<lparr>X = 1, Y = 0\<rparr>)]"]
    unfolding pos
    by (simp add: ex_twice_def w normalized_def P_scale_def Length_def Dot_def Point0_def)
qed

section \<open>Loading progress\<close>

text \<open>
  C9, as the claim states it, fails: \<open>Progress()\<close> counts the entries of the table, not
  the loaded assets. With two paths waiting and one entry that a lookup has created and
  that is not loaded, no asset is loaded and the claim's value is 0, but \<open>Progress()\<close>
  is 1/3.
\<close>

theorem Progress_counts_lookups_counterexample:
  "loadQueue ex_lookup = [''sounds/a.wav'', ''sounds/b.wav''] \<and>
   sounds ex_lookup = [(''laser'', Sound0)] \<and>
   spec_loadedCount ex_lookup = 0 \<and>
   spec_Progress ex_lookup = 0 \<and>
   Progress ex_lookup = 1 / 3 \<and>
   Progress ex_lookup \<noteq> spec_Progress ex_lookup"
  by (simp add: ex_lookup_def Get_def audio0_def Progress_def spec_Progress_def
      spec_loadedCount_def Sound0_def Let_def)

lemma all_loaded_count:
  "(\<forall>ns \<in> set m. Buffer (snd ns) \<noteq> 0) \<Longrightarrow>
   length (filter (\<lambda>ns. Buffer (snd ns) \<noteq> 0) m) = length m"
  by (induction m) simp_all

text \<open>
  C9, amended. \<open>Progress()\<close> is 1 when \<open>loadQueue\<close> is empty and otherwise the number
  of entries of the sound table, loaded or not, divided by that number plus the number
  of paths still in \<open>loadQueue\<close>; the value lies between 0 and 1. When every entry of
  the table is loaded, this is the number of loaded assets over that number plus the
  number of paths still queued.
\<close>

theorem Progress_range:
  "Progress st =
     (if loadQueue st = [] then 1
      else real (length (sounds st)) /
           (real (length (sounds st)) + real (length (loadQueue st)))) \<and>
   0 \<le> Progress st \<and> Progress st \<le> 1 \<and>
   ((\<forall>ns \<in> set (sounds st). Buffer (snd ns) \<noteq> 0) \<longrightarrow> Progress st = spec_Progress st)"
proof -
  have loaded: "Progress st = spec_Progress st"
    if "\<forall>ns \<in> set (sounds st). Buffer (snd ns) \<noteq> 0"
    using all_loaded_count[OF that]
    by (simp add: Progress_def spec_Progress_def spec_loadedCount_def Let_def)
  show ?thesis
  proof (cases "loadQueue st = []")
    case True
    then show ?thesis using loaded by (simp add: Progress_def)
  next
    case False
    then have pos: "0 < real (length (sounds st)) + real (length (loadQueue st))"
      by (simp add: add_nonneg_pos)
    have le: "real (length (sounds st)) \<le>
        real (length (sounds st)) + real (length (loadQueue st))"
      by simp
    have eq: "Progress st =
        real (length (sounds st)) / (real (length (sounds st)) + real (length (loadQueue st)))"
      using False by (simp add: Progress_def Let_def)
    have "0 \<le> Progress st"
      unfolding eq by (rule divide_nonneg_pos) (simp, rule pos)
    moreover have "Progress st \<le> 1"
      unfolding eq using pos le by (simp only: divide_le_eq_1_pos)
    ultimately show ?thesis using False eq loaded by simp
  qed
qed

theorem Progress_range_witness:
  "Progress ex_loaded = 1 / 2 \<and> spec_Progress ex_loaded = 1 / 2 \<and>
   Progress ex_lookup = 1 / 3 \<and> Progress audio0 = 1"
  using Progress_range [of ex_loaded] Progress_range [of ex_lookup] Progress_range [of audio0]
  by (simp add: ex_loaded_def ex_lookup_def Get_def audio0_def spec_Progress_def
      spec_loadedCount_def)

section \<open>Step from another thread\<close>

lemma Init_mainThreadID:
  "Init device_ok context_ok paths tid st = Inr st' \<Longrightarrow> mainThreadID st' = tid"
  by (auto simp: Init_def split: if_splits)

text \<open>
  C10. \<open>Step\<close> called by a thread other than the main thread (the one recorded by
  \<open>Init\<close>) returns the state unchanged: the sources, the recycled identifiers, the cap,
  the queue and the log of backend calls are all as before.
\<close>

theorem Step_other_thread: "tid \<noteq> mainThreadID st \<Longrightarrow> Step tid st = st"
  by (simp add: Step_def)

theorem Step_other_thread_witness:
  "(2::nat) \<noteq> mainThreadID ex_queued \<and> Step 2 ex_queued = ex_queued \<and>
   Step 1 ex_queued \<noteq> ex_queued"
proof -
  have h: "(2::nat) \<noteq> mainThreadID ex_queued"
    by (simp add: ex_queued_def ex_playing_def audio0_def)
  have "queue (Step 1 ex_queued) = []"
    by (simp add: Step_def allocate_phase_def ex_queued_def ex_playing_def audio0_def)
  moreover have "queue ex_queued \<noteq> []"
    by (simp add: ex_queued_def)
  ultimately have "Step 1 ex_queued \<noteq> ex_queued"
    by metis
  with h Step_other_thread [OF h] show ?thesis by simp
qed

section \<open>The maps\<close>

lemma map_modify_keys_list: "set (map fst (map_modify k d f m)) = insert k (set (map fst m))"
  by (induction k d f m rule: map_modify.induct) (simp_all add: insert_commute)

lemma map_modify_keys: "fst ` set (map_modify k d f m) = insert k (fst ` set m)"
  using map_modify_keys_list[of k d f m] by (simp only: set_map)

lemma map_of_map_modify:
  "map_wf m \<Longrightarrow>
   map_of (map_modify k d f m) k' =
     (if k' = k then Some (f (case map_of m k of None \<Rightarrow> d | Some v \<Rightarrow> v)) else map_of m k')"
proof (induction m)
  case Nil
  show ?case by simp
next
  case (Cons a m)
  obtain ka va where a: "a = (ka, va)" by (cases a)
  from Cons.prems have wf: "map_wf m" and lt: "\<forall>x \<in> set m. ka < fst x"
    by (simp_all add: map_wf_def a)
  have notin: "k < ka \<Longrightarrow> map_of m k = None"
  proof -
    assume "k < ka"
    with lt have "k \<notin> fst ` set m" by force
    then show ?thesis by (simp add: map_of_eq_None_iff)
  qed
  show ?case
    using Cons.IH[OF wf] notin by (auto simp: a)
qed

lemma map_wf_map_modify: "map_wf m \<Longrightarrow> map_wf (map_modify k d f m)"
proof (induction m)
  case Nil
  show ?case by (simp add: map_wf_def)
next
  case (Cons a m)
  obtain ka va where a: "a = (ka, va)" by (cases a)
  from Cons.prems have wf: "map_wf m" and lt: "\<forall>x \<in> set m. ka < fst x"
    by (simp_all add: map_wf_def a)
  have keys: "fst ` set (map_modify k d f m) = insert k (fst ` set m)"
    by (rule map_modify_keys)
  have "\<forall>x \<in> set (map_modify k d f m). ka < fst x" if "ka < k"
  proof
    fix x
    assume "x \<in> set (map_modify k d f m)"
    then have "fst x \<in> insert k (fst ` set m)"
      unfolding keys[symmetric] by (rule imageI)
    then show "ka < fst x" using lt that by auto
  qed
  then show ?case
    using Cons.IH[OF wf] wf lt by (auto simp: a map_wf_def)
qed

lemma map_wf_distinct: "map_wf m \<Longrightarrow> distinct (map fst m)"
  by (simp add: map_wf_def strict_sorted_iff)

lemma map_of_map_erase: "map_of (map_erase k m) k' = (if k' = k then None else map_of m k')"
  by (induction m) (auto simp: map_erase_def)

lemma map_erase_keys: "fst ` set (map_erase k m) = fst ` set m - {k}"
  by (auto simp: map_erase_def)

section \<open>The deferred requests\<close>

lemma merge_deferred_lookup:
  "map_wf q \<Longrightarrow> distinct (map fst ds) \<Longrightarrow>
   map_wf (merge_deferred ds q) \<and>
   map_of (merge_deferred ds q) k =
     (case map_of ds k of
        None \<Rightarrow> map_of q k
      | Some d \<Rightarrow> Some (Add_entry d (case map_of q k of None \<Rightarrow> QueueEntry0 | Some e \<Rightarrow> e)))"
proof (induction ds arbitrary: q)
  case Nil
  then show ?case by simp
next
  case (Cons a ds)
  obtain ka ea where a: "a = (ka, ea)" by (cases a)
  let ?q = "map_modify ka QueueEntry0 (Add_entry ea) q"
  have wf: "map_wf ?q" using Cons.prems(1) by (rule map_wf_map_modify)
  from Cons.prems(2) have d: "distinct (map fst ds)" and nin: "ka \<notin> fst ` set ds"
    by (simp_all add: a)
  have none: "map_of ds ka = None" using nin by (simp add: map_of_eq_None_iff)
  show ?case
    using Cons.IH[OF wf d] none
    by (auto simp: a map_of_map_modify[OF Cons.prems(1)] split: option.splits)
qed

text \<open>
  A request that a thread other than the main thread makes for a loaded sound, at a
  volume that is not zero, is folded into the sound's entry of \<open>deferred\<close>.
\<close>

lemma Play_deferred:
  "tid \<noteq> mainThreadID st \<Longrightarrow> sptr \<noteq> 0 \<Longrightarrow> Buffer (heap st sptr) \<noteq> 0 \<Longrightarrow>
   volume st \<noteq> 0 \<Longrightarrow> map_wf (deferred st) \<Longrightarrow>
   map_wf (deferred (Play sptr p v tid st)) \<and> queue (Play sptr p v tid st) = queue st \<and>
   map_of (deferred (Play sptr p v tid st)) sptr =
     Some (Add (P_sub p (listener st)) (P_sub v (listenerVelocity st))
       (case map_of (deferred st) sptr of None \<Rightarrow> QueueEntry0 | Some e \<Rightarrow> e))"
  by (simp add: Play_def map_wf_map_modify map_of_map_modify)

lemma ex_deferred_maps:
  "queue ex_deferred = [(1, Add \<lparr>X = 3, Y = 4\<rparr> Point0 QueueEntry0),
                        (4, Add \<lparr>X = 0, Y = 0\<rparr> Point0 QueueEntry0)]"
  "deferred ex_deferred = [(1, Add \<lparr>X = 1, Y = 0\<rparr> Point0 QueueEntry0),
                           (3, Add \<lparr>X = 0, Y = 2\<rparr> Point0 QueueEntry0)]"
  by (simp_all add: ex_deferred_def ex_queued_def ex_playing_def audio0_def ex_heap_def Play_def
      P_sub_def Point0_def)

section \<open>The mutex\<close>

text \<open>
  C6 does not hold of \<open>Update\<close>. Started with an empty trace and the mutex free,
  \<open>Update\<close> reads and clears \<open>deferred\<close> without taking \<open>audioMutex\<close>, whatever the
  state; \<open>Play\<close>, from whichever thread, touches \<open>deferred\<close> only between taking and
  releasing it.
\<close>

theorem Update_touches_deferred_unlocked:
  "sync (Update lp lv (st\<lparr>sync := []\<rparr>)) = [Touch_deferred, Touch_deferred] \<and>
   \<not> guarded False (sync (Update lp lv (st\<lparr>sync := []\<rparr>))) \<and>
   guarded False (sync (Play sptr p v tid (st\<lparr>sync := []\<rparr>)))"
  by (simp add: Update_def Play_def)

section \<open>The loader\<close>

text \<open>
  What \<open>Load\<close> does for any list of paths that is not empty: it returns with the list
  empty, and the names it has registered are those of the paths but the last one. The
  first round of the loop runs with the empty path, which has no name, and pops the
  last path of the list before any round has read it.
\<close>

lemma Load_loop_registers:
  "loadQueue st \<noteq> [] \<Longrightarrow>
   \<exists>st'. Load_loop Sound_Load path st = Some st' \<and> loadQueue st' = [] \<and>
     fst ` set (sounds st') =
       fst ` set (sounds st) \<union> (Name ` insert path (set (butlast (loadQueue st))) - {[]})"
proof (induction "length (loadQueue st)" arbitrary: st path rule: less_induct)
  case less
  define st1 where "st1 =
    (if Name path \<noteq> []
     then st\<lparr>sounds := map_modify (Name path) Sound0 (Sound_Load path) (sounds st)\<rparr>
     else st)"
  define st3 where "st3 =
    st1\<lparr>loadQueue := butlast (loadQueue st1), sync := sync st1 @ [Acquire, Release]\<rparr>"
  have q3: "loadQueue st3 = butlast (loadQueue st)"
    by (simp add: st3_def st1_def)
  have k3: "fst ` set (sounds st3) = fst ` set (sounds st) \<union> ({Name path} - {[]})"
    by (auto simp: st3_def st1_def map_modify_keys)
  show ?case
  proof (cases "butlast (loadQueue st) = []")
    case True
    have "Load_loop Sound_Load path st = Some st3"
      using less.prems True
      by (subst Load_loop.simps) (simp add: Let_def st3_def st1_def)
    then show ?thesis using q3 k3 True by auto
  next
    case False
    have eq: "Load_loop Sound_Load path st =
        Load_loop Sound_Load (last (butlast (loadQueue st))) st3"
      using less.prems False
      by (subst Load_loop.simps) (simp add: Let_def st3_def st1_def)
    have shorter: "length (loadQueue st3) < length (loadQueue st)"
      using less.prems by (simp add: q3)
    have ne: "loadQueue st3 \<noteq> []" using False by (simp add: q3)
    from less.hyps[OF shorter ne, of "last (butlast (loadQueue st))"]
    obtain st' where r: "Load_loop Sound_Load (last (butlast (loadQueue st))) st3 = Some st'"
      "loadQueue st' = []"
      "fst ` set (sounds st') =
         fst ` set (sounds st3) \<union>
         (Name ` insert (last (butlast (loadQueue st))) (set (butlast (loadQueue st3))) - {[]})"
      by blast
    have "set (butlast (butlast (loadQueue st)) @ [last (butlast (loadQueue st))]) =
        set (butlast (loadQueue st))"
      using False by simp
    then have S: "insert (last (butlast (loadQueue st))) (set (butlast (butlast (loadQueue st)))) =
        set (butlast (loadQueue st))"
      by simp
    have "fst ` set (sounds st') =
        fst ` set (sounds st) \<union> (Name ` insert path (set (butlast (loadQueue st))) - {[]})"
      unfolding r(3) k3 q3 S by blast
    with r(1,2) eq show ?thesis by simp
  qed
qed

lemma Load_registers:
  "loadQueue st \<noteq> [] \<Longrightarrow>
   \<exists>st'. Load Sound_Load st = Some st' \<and> loadQueue st' = [] \<and>
     fst ` set (sounds st') =
       fst ` set (sounds st) \<union> (Name ` set (butlast (loadQueue st)) - {[]})"
proof -
  assume ne: "loadQueue st \<noteq> []"
  have "Name [] = []" by (simp add: Name_def)
  then have "Name ` insert [] (set (butlast (loadQueue st))) - {[]} =
      Name ` set (butlast (loadQueue st)) - {[]}"
    by auto
  with Load_loop_registers[OF ne, of Sound_Load "[]"] show ?thesis
    by (simp add: Load_def)
qed

text \<open>
  C8 fails on the code. With the two discovered paths \<open>sounds/a.wav\<close> and
  \<open>sounds/b.wav\<close>, \<open>Load\<close> returns with \<open>loadQueue\<close> empty and with \<open>a\<close> as the only
  registered sound, although \<open>Name\<close> recognises \<open>sounds/b.wav\<close> as the sound \<open>b\<close>; and
  with \<open>sounds/b.wav\<close> alone it registers nothing.
\<close>

theorem Load_skips_last_path:
  "map_option sounds
     (Load Sound_Load (audio0\<lparr>loadQueue := [''sounds/a.wav'', ''sounds/b.wav'']\<rparr>)) =
     Some [(''a'', Sound_Load ''sounds/a.wav'' Sound0)] \<and>
   map_option loadQueue
     (Load Sound_Load (audio0\<lparr>loadQueue := [''sounds/a.wav'', ''sounds/b.wav'']\<rparr>)) = Some [] \<and>
   Name ''sounds/b.wav'' = ''b'' \<and>
   map_option sounds (Load Sound_Load (audio0\<lparr>loadQueue := [''sounds/b.wav'']\<rparr>)) = Some []"
  by (simp add: Load_def Load_loop.simps audio0_def Name_def rfind_def Let_def)

section \<open>The advance phase\<close>

lemma retained_after_erase:
  "IsLooping (heap st (sound s')) \<longrightarrow> sound s' \<noteq> k \<Longrightarrow>
   spec_retained (st\<lparr>al_log := l, queue := map_erase k (queue st)\<rparr>) s' = spec_retained st s'"
  by (auto simp: spec_retained_def map_erase_keys)

lemma calls_after_erase:
  "IsLooping (heap st (sound s')) \<longrightarrow> sound s' \<noteq> k \<Longrightarrow>
   advance_calls (st\<lparr>al_log := l, queue := map_erase k (queue st)\<rparr>) s' = advance_calls st s'"
  by (auto simp: advance_calls_def map_of_map_erase)

lemma retained_frame:
  "spec_retained (st\<lparr>al_log := l\<rparr>) = spec_retained st"
  "spec_retained (st\<lparr>al_log := l, recycledSources := r\<rparr>) = spec_retained st"
  by (simp_all add: spec_retained_def fun_eq_iff)

lemma calls_frame:
  "advance_calls (st\<lparr>al_log := l\<rparr>) = advance_calls st"
  "advance_calls (st\<lparr>al_log := l, recycledSources := r\<rparr>) = advance_calls st"
  by (simp_all add: advance_calls_def fun_eq_iff)

lemma looping_frame:
  "looping_sounds (st\<lparr>al_log := l\<rparr>) = looping_sounds st"
  "looping_sounds (st\<lparr>al_log := l, recycledSources := r\<rparr>) = looping_sounds st"
  "looping_sounds (st\<lparr>al_log := l, queue := q\<rparr>) = looping_sounds st"
  by (simp_all add: looping_sounds_def fun_eq_iff)

lemma looping_sounds_Cons:
  "looping_sounds st (s # ss) =
     (if IsLooping (heap st (sound s)) then sound s # looping_sounds st ss
      else looping_sounds st ss)"
  by (simp add: looping_sounds_def)

lemma in_looping_sounds:
  "s' \<in> set ss \<Longrightarrow> IsLooping (heap st (sound s')) \<Longrightarrow> sound s' \<in> set (looping_sounds st ss)"
  by (auto simp: looping_sounds_def)

text \<open>
  The first loop of \<open>Step\<close> in closed form, when no two channels of the list are bound
  to the same looping sound.
\<close>

lemma advance_loop_char:
  "distinct (looping_sounds st ss) \<Longrightarrow>
   advance_loop ss ns st =
     (ns @ filter (spec_retained st) ss,
      st\<lparr>al_log := al_log st @ concat (map (advance_calls st) ss),
         queue := filter (\<lambda>kv. fst kv \<notin> set (looping_sounds st ss)) (queue st),
         recycledSources :=
           recycledSources st @ map source (filter (\<lambda>s. \<not> spec_retained st s) ss)\<rparr>)"
proof (induction ss arbitrary: ns st)
  case Nil
  show ?case by (simp add: looping_sounds_def)
next
  case (Cons s ss)
  show ?case
  proof (cases "IsLooping (heap st (sound s))")
    case loop: True
    from Cons.prems loop have d: "distinct (looping_sounds st ss)"
      and fresh: "sound s \<notin> set (looping_sounds st ss)"
      by (simp_all add: looping_sounds_Cons)
    have other: "IsLooping (heap st (sound s')) \<longrightarrow> sound s' \<noteq> sound s" if "s' \<in> set ss" for s'
      using fresh in_looping_sounds[OF that] by metis
    show ?thesis
    proof (cases "map_of (queue st) (sound s)")
      case None
      let ?st = "st\<lparr>al_log := al_log st @ [alSourceStop (source s)],
                    recycledSources := recycledSources st @ [source s]\<rparr>"
      have nk: "sound s \<notin> fst ` set (queue st)"
        using None by (simp add: map_of_eq_None_iff)
      have ret: "\<not> spec_retained st s"
        using loop nk by (simp add: spec_retained_def)
      have calls: "advance_calls st s = [alSourceStop (source s)]"
        using loop None by (simp add: advance_calls_def)
      have q: "filter (\<lambda>kv. fst kv \<notin> set (looping_sounds st (s # ss))) (queue st) =
               filter (\<lambda>kv. fst kv \<notin> set (looping_sounds st ss)) (queue st)"
      proof (rule filter_cong[OF refl])
        fix kv
        assume "kv \<in> set (queue st)"
        then have "fst kv \<noteq> sound s" using nk by (metis imageI)
        then show "(fst kv \<notin> set (looping_sounds st (s # ss))) =
                   (fst kv \<notin> set (looping_sounds st ss))"
          by (simp add: looping_sounds_Cons)
      qed
      have step: "advance_loop (s # ss) ns st = advance_loop ss ns ?st"
        using loop None by simp
      have d': "distinct (looping_sounds ?st ss)"
        using d by (simp add: looping_frame)
      show ?thesis
        unfolding step Cons.IH[OF d'] q
        by (simp add: retained_frame calls_frame looping_frame ret calls)
    next
      case (Some e)
      let ?st = "st\<lparr>al_log := al_log st @ Move s (Position e) (Velocity e),
                    queue := map_erase (sound s) (queue st)\<rparr>"
      have ik: "sound s \<in> fst ` set (queue st)"
        using Some by (metis map_of_eq_None_iff option.distinct(1))
      have ret: "spec_retained st s"
        using loop ik by (simp add: spec_retained_def)
      have calls: "advance_calls st s = Move s (Position e) (Velocity e)"
        using loop Some by (simp add: advance_calls_def Move_def)
      have q: "filter (\<lambda>kv. fst kv \<notin> set (looping_sounds st ss)) (map_erase (sound s) (queue st)) =
               filter (\<lambda>kv. fst kv \<notin> set (looping_sounds st (s # ss))) (queue st)"
        using loop by (auto simp: looping_sounds_Cons map_erase_def intro!: filter_cong)
      have step: "advance_loop (s # ss) ns st = advance_loop ss (ns @ [s]) ?st"
        using loop Some by simp
      have d': "distinct (looping_sounds ?st ss)"
        using d by (simp add: looping_frame)
      have r': "filter (spec_retained ?st) ss = filter (spec_retained st) ss"
        by (rule filter_cong[OF refl]) (rule retained_after_erase, rule other)
      have r'': "filter (\<lambda>s. \<not> spec_retained ?st s) ss = filter (\<lambda>s. \<not> spec_retained st s) ss"
        by (rule filter_cong[OF refl]) (simp add: retained_after_erase[OF other])
      have c': "map (advance_calls ?st) ss = map (advance_calls st) ss"
        by (rule map_cong[OF refl]) (rule calls_after_erase, rule other)
      show ?thesis
        unfolding step Cons.IH[OF d'] r' r'' c'
        by (simp add: looping_frame ret calls q)
    qed
  next
    case noloop: False
    from Cons.prems noloop have d: "distinct (looping_sounds st ss)"
      by (simp add: looping_sounds_Cons)
    have calls: "advance_calls st s = [alGetSourcei_STATE (source s)]"
      using noloop by (simp add: advance_calls_def)
    have ret: "spec_retained st s = al_playing st (source s)"
      using noloop by (simp add: spec_retained_def)
    have ls: "looping_sounds st (s # ss) = looping_sounds st ss"
      using noloop by (simp add: looping_sounds_Cons)
    show ?thesis
    proof (cases "al_playing st (source s)")
      case True
      let ?st = "st\<lparr>al_log := al_log st @ [alGetSourcei_STATE (source s)]\<rparr>"
      have step: "advance_loop (s # ss) ns st = advance_loop ss (ns @ [s]) ?st"
        using noloop True by simp
      have d': "distinct (looping_sounds ?st ss)"
        using d by (simp add: looping_frame)
      show ?thesis
        unfolding step Cons.IH[OF d'] ls
        by (simp add: retained_frame calls_frame looping_frame ret calls True)
    next
      case False
      let ?st = "st\<lparr>al_log := al_log st @ [alGetSourcei_STATE (source s)],
                    recycledSources := recycledSources st @ [source s]\<rparr>"
      have step: "advance_loop (s # ss) ns st = advance_loop ss ns ?st"
        using noloop False by simp
      have d': "distinct (looping_sounds ?st ss)"
        using d by (simp add: looping_frame)
      show ?thesis
        unfolding step Cons.IH[OF d'] ls
        by (simp add: retained_frame calls_frame looping_frame ret calls False)
    qed
  qed
qed

lemma retained_calls:
  "spec_retained st s \<Longrightarrow>
   alSourceStop (source s) \<notin> set (advance_calls st s) \<and>
   alSourcePlay (source s) \<notin> set (advance_calls st s)"
  by (auto simp: spec_retained_def advance_calls_def Move_def map_of_eq_None_iff
      split: option.splits if_splits)

lemma sqrt_25: "sqrt 25 = 5" "sqrt (1 / 25) = 1 / 5"
proof -
  show "sqrt 25 = 5"
    by (rule real_sqrt_unique) (simp_all add: power2_eq_square)
  show "sqrt (1 / 25) = 1 / 5"
    by (rule real_sqrt_unique) (simp_all add: power2_eq_square)
qed

lemma ex_frame_entry:
  "Position (Add \<lparr>X = 3, Y = 4\<rparr> \<lparr>X = 5, Y = 0\<rparr> QueueEntry0) = \<lparr>X = 3, Y = 4\<rparr>"
  "Velocity (Add \<lparr>X = 3, Y = 4\<rparr> \<lparr>X = 5, Y = 0\<rparr> QueueEntry0) = \<lparr>X = 9 / 125, Y = 12 / 125\<rparr>"
proof -
  show p: "Position (Add \<lparr>X = 3, Y = 4\<rparr> \<lparr>X = 5, Y = 0\<rparr> QueueEntry0) = \<lparr>X = 3, Y = 4\<rparr>"
    by (simp add: Position_def Add_def QueueEntry0_def Point0_def P_add_def P_scale_def
        P_div_def Dot_def Let_def)
  have d: "1 / max 1 (Dot \<lparr>X = 3, Y = 4\<rparr> \<lparr>X = 3, Y = 4\<rparr>) = 1 / 25"
    by (simp add: Dot_def)
  have "speed (Add \<lparr>X = 3, Y = 4\<rparr> \<lparr>X = 5, Y = 0\<rparr> QueueEntry0) =
      0 + 1 / 25 * (1 / 5) * Dot \<lparr>X = 3, Y = 4\<rparr> \<lparr>X = 5, Y = 0\<rparr>"
    unfolding Add_def Let_def d sqrt_25 by (simp add: QueueEntry0_def)
  then have s: "speed (Add \<lparr>X = 3, Y = 4\<rparr> \<lparr>X = 5, Y = 0\<rparr> QueueEntry0) = 3 / 25"
    by (simp add: Dot_def)
  have l: "Length \<lparr>X = 3, Y = 4\<rparr> = 5"
    by (simp add: Length_def sqrt_25)
  show "Velocity (Add \<lparr>X = 3, Y = 4\<rparr> \<lparr>X = 5, Y = 0\<rparr> QueueEntry0) = \<lparr>X = 9 / 125, Y = 12 / 125\<rparr>"
    unfolding Velocity_def Let_def p l s by (simp add: P_scale_def)
qed

text \<open>
  C3. In a state where no two active channels are bound to the same looping sound,
  the advance phase keeps exactly the channels that \<open>spec_retained\<close> describes, in
  their order and with their identifiers: those of a looping sound for which the queue
  holds an entry, and those of a sound that is not looping and that the backend
  reports playing. The identifiers of all other channels are appended to the recycle
  list. The queue loses the entries of the looping sounds that have a channel. The
  backend calls are those of \<open>advance_calls\<close>, channel by channel. For a kept looping
  channel they are the two calls of \<open>Move\<close>: its position is set to the position of its
  entry and its velocity to the velocity of its entry, both scaled by 0.001; these
  calls are in the log after the phase, and no kept channel is stopped or started.
\<close>

theorem advance_phase_retains:
  assumes "distinct (looping_sounds st (sources st))"
  shows "advance_phase st =
     st\<lparr>sources := filter (spec_retained st) (sources st),
        recycledSources :=
          recycledSources st @ map source (filter (\<lambda>s. \<not> spec_retained st s) (sources st)),
        queue := filter (\<lambda>kv. fst kv \<notin> set (looping_sounds st (sources st))) (queue st),
        al_log := al_log st @ concat (map (advance_calls st) (sources st))\<rparr> \<and>
     (\<forall>s. spec_retained st s \<longrightarrow>
        IsLooping (heap st (sound s)) \<longrightarrow>
        (\<exists>e. map_of (queue st) (sound s) = Some e \<and>
             advance_calls st s =
               [alSource3f_POSITION (source s) (X (Position e) * 0.001) (Y (Position e) * 0.001) 0,
                alSource3f_VELOCITY (source s) (X (Velocity e) * 0.001) (Y (Velocity e) * 0.001) 0] \<and>
             (s \<in> set (sources st) \<longrightarrow>
                alSource3f_POSITION (source s) (X (Position e) * 0.001) (Y (Position e) * 0.001) 0
                  \<in> set (al_log (advance_phase st)) \<and>
                alSource3f_VELOCITY (source s) (X (Velocity e) * 0.001) (Y (Velocity e) * 0.001) 0
                  \<in> set (al_log (advance_phase st))))) \<and>
     (\<forall>s. spec_retained st s \<longrightarrow>
        alSourceStop (source s) \<notin> set (advance_calls st s) \<and>
        alSourcePlay (source s) \<notin> set (advance_calls st s))"
proof -
  have 1: "advance_phase st =
     st\<lparr>sources := filter (spec_retained st) (sources st),
        recycledSources :=
          recycledSources st @ map source (filter (\<lambda>s. \<not> spec_retained st s) (sources st)),
        queue := filter (\<lambda>kv. fst kv \<notin> set (looping_sounds st (sources st))) (queue st),
        al_log := al_log st @ concat (map (advance_calls st) (sources st))\<rparr>"
    by (simp add: advance_phase_def advance_loop_char[OF assms])
  have log: "set (advance_calls st s) \<subseteq> set (al_log (advance_phase st))"
    if "s \<in> set (sources st)" for s
    unfolding 1 using that by auto
  have 2: "\<exists>e. map_of (queue st) (sound s) = Some e \<and>
             advance_calls st s =
               [alSource3f_POSITION (source s) (X (Position e) * 0.001) (Y (Position e) * 0.001) 0,
                alSource3f_VELOCITY (source s) (X (Velocity e) * 0.001) (Y (Velocity e) * 0.001) 0] \<and>
             (s \<in> set (sources st) \<longrightarrow>
                alSource3f_POSITION (source s) (X (Position e) * 0.001) (Y (Position e) * 0.001) 0
                  \<in> set (al_log (advance_phase st)) \<and>
                alSource3f_VELOCITY (source s) (X (Velocity e) * 0.001) (Y (Velocity e) * 0.001) 0
                  \<in> set (al_log (advance_phase st)))"
    if "spec_retained st s" "IsLooping (heap st (sound s))" for s
  proof -
    from that have "sound s \<in> fst ` set (queue st)" by (simp add: spec_retained_def)
    then obtain e where e: "map_of (queue st) (sound s) = Some e"
      by (metis map_of_eq_None_iff not_Some_eq)
    with that(2) have c: "advance_calls st s =
        [alSource3f_POSITION (source s) (X (Position e) * 0.001) (Y (Position e) * 0.001) 0,
         alSource3f_VELOCITY (source s) (X (Velocity e) * 0.001) (Y (Velocity e) * 0.001) 0]"
      by (simp add: advance_calls_def)
    from log[of s] have "s \<in> set (sources st) \<longrightarrow>
        alSource3f_POSITION (source s) (X (Position e) * 0.001) (Y (Position e) * 0.001) 0
          \<in> set (al_log (advance_phase st)) \<and>
        alSource3f_VELOCITY (source s) (X (Velocity e) * 0.001) (Y (Velocity e) * 0.001) 0
          \<in> set (al_log (advance_phase st))"
      unfolding c by simp
    with e c show ?thesis by blast
  qed
  show ?thesis using 1 2 retained_calls by blast
qed

theorem advance_phase_retains_witness:
  "distinct (looping_sounds ex_frame (sources ex_frame)) \<and>
   sources (advance_phase ex_frame) = [\<lparr>sound = 1, source = 7\<rparr>, \<lparr>sound = 2, source = 8\<rparr>] \<and>
   recycledSources (advance_phase ex_frame) = [9, 10] \<and>
   map fst (queue ex_frame) = [1, 4] \<and>
   map fst (queue (advance_phase ex_frame)) = [4] \<and>
   al_log (advance_phase ex_frame) =
     [alSource3f_POSITION 7 (3 / 1000) (4 / 1000) 0,
      alSource3f_VELOCITY 7 (9 / 125000) (12 / 125000) 0,
      alGetSourcei_STATE 8, alSourceStop 9, alGetSourcei_STATE 10]"
proof -
  have h: "distinct (looping_sounds ex_frame (sources ex_frame))"
    by (simp add: looping_sounds_def ex_frame_def ex_queued_def ex_playing_def audio0_def
        ex_heap_def)
  have f: "sources ex_frame = [\<lparr>sound = 1, source = 7\<rparr>, \<lparr>sound = 2, source = 8\<rparr>,
                           \<lparr>sound = 3, source = 9\<rparr>, \<lparr>sound = 4, source = 10\<rparr>]"
    "recycledSources ex_frame = []" "al_log ex_frame = []"
    "queue ex_frame = [(1, Add \<lparr>X = 3, Y = 4\<rparr> \<lparr>X = 5, Y = 0\<rparr> QueueEntry0),
                       (4, Add \<lparr>X = 0, Y = 0\<rparr> Point0 QueueEntry0)]"
    "heap ex_frame = ex_heap" "al_playing ex_frame = (\<lambda>i. i = 8)"
    by (simp_all add: ex_frame_def ex_queued_def ex_playing_def audio0_def)
  from advance_phase_retains [OF h]
  have eq: "advance_phase ex_frame =
     ex_frame\<lparr>sources := filter (spec_retained ex_frame) (sources ex_frame),
        recycledSources :=
          recycledSources ex_frame @
          map source (filter (\<lambda>s. \<not> spec_retained ex_frame s) (sources ex_frame)),
        queue := filter (\<lambda>kv. fst kv \<notin> set (looping_sounds ex_frame (sources ex_frame)))
                   (queue ex_frame),
        al_log := al_log ex_frame @ concat (map (advance_calls ex_frame) (sources ex_frame))\<rparr>"
    by blast
  show ?thesis
    unfolding eq using h
    by (simp add: f spec_retained_def advance_calls_def looping_sounds_def ex_heap_def
        ex_frame_entry)
qed

section \<open>The allocate phase\<close>

lemma alloc_count_simps:
  "alloc_count 0 nr n cap nh = 0"
  "alloc_count (Suc nq) (Suc nr) n cap nh = Suc (alloc_count nq nr (Suc n) cap nh)"
  "cap \<le> n \<Longrightarrow> alloc_count nq 0 n cap nh = 0"
  "alloc_count nq 0 n cap 0 = 0"
  "n < cap \<Longrightarrow> alloc_count (Suc nq) 0 n cap (Suc nh) = Suc (alloc_count nq 0 (Suc n) cap nh)"
  unfolding alloc_count_def by arith+

lemma spec_allocate_Nil: "spec_allocate [] st = st"
  by (simp add: spec_allocate_def spec_allocated_def spec_refused_def alloc_count_simps)

lemma spec_allocate_recycled:
  assumes r: "recycledSources st \<noteq> []"
  shows "spec_allocate (it # q) st =
         spec_allocate q (start_source it (last (recycledSources st))
                            (st\<lparr>recycledSources := butlast (recycledSources st)\<rparr>))"
proof -
  let ?r = "recycledSources st"
  define st' where "st' = start_source it (last ?r) (st\<lparr>recycledSources := butlast ?r\<rparr>)"
  define k' where "k' = spec_allocated q st'"
  define rf where "rf = spec_refused q st'"
  define ids' where "ids' = spec_ids st'"
  obtain m where m: "length ?r = Suc m" using r by (cases ?r) auto
  have k: "spec_allocated (it # q) st = Suc k'"
    by (simp add: k'_def st'_def spec_allocated_def start_source_def m alloc_count_simps)
  have ref: "spec_refused (it # q) st = rf"
    unfolding spec_refused_def k rf_def k'_def[symmetric] by (simp add: st'_def start_source_def)
  have rv: "rev ?r = last ?r # rev (butlast ?r)"
    using r by (cases ?r rule: rev_cases) simp_all
  have ids: "spec_ids st = (False, last ?r) # ids'"
    by (simp add: ids'_def st'_def spec_ids_def start_source_def rv)
  have tk: "take (m - k') (butlast ?r) = take (m - k') ?r"
    by (rule take_butlast) (simp add: m less_Suc_eq_le)
  have "spec_allocate q st' = spec_allocate (it # q) st"
    unfolding spec_allocate_def Let_def k ref ids k'_def[symmetric] rf_def[symmetric]
      ids'_def[symmetric]
    by (simp add: st'_def start_source_def m tk)
  then show ?thesis by (simp add: st'_def)
qed

lemma spec_allocate_full:
  assumes "recycledSources st = []" and "maxSources st \<le> length (sources st)"
  shows "spec_allocate (it # q) st = st"
  using assms
  by (simp add: spec_allocate_def spec_allocated_def spec_refused_def alloc_count_simps)

lemma spec_allocate_refused:
  assumes "recycledSources st = []" and "length (sources st) < maxSources st"
    and "(case al_gen st of [] \<Rightarrow> 0 | g # gs \<Rightarrow> g) = 0"
  shows "spec_allocate (it # q) st =
         st\<lparr>al_gen := tl (al_gen st), al_log := al_log st @ [alGenSources 0],
            maxSources := length (sources st)\<rparr>"
proof -
  have tw: "takeWhile (\<lambda>g. g \<noteq> 0) (al_gen st) = []"
    using assms(3) by (cases "al_gen st") simp_all
  have k: "spec_allocated (it # q) st = 0"
    unfolding spec_allocated_def assms(1) tw by (simp add: alloc_count_simps)
  have ref: "spec_refused (it # q) st"
    unfolding spec_refused_def k using assms(2) by simp
  show ?thesis
    unfolding spec_allocate_def Let_def k
    by (simp add: ref assms(1) drop_Suc)
qed

lemma spec_allocate_fresh:
  assumes r: "recycledSources st = []" and n: "length (sources st) < maxSources st"
    and g: "al_gen st = g # gs" "g \<noteq> 0"
  shows "spec_allocate (it # q) st =
         spec_allocate q (start_source it g
                            (st\<lparr>al_gen := gs, al_log := al_log st @ [alGenSources g]\<rparr>))"
proof -
  define st' where
    "st' = start_source it g (st\<lparr>al_gen := gs, al_log := al_log st @ [alGenSources g]\<rparr>)"
  define k' where "k' = spec_allocated q st'"
  define rf where "rf = spec_refused q st'"
  define ids' where "ids' = spec_ids st'"
  have k: "spec_allocated (it # q) st = Suc k'"
    using n by (simp add: k'_def st'_def spec_allocated_def start_source_def r g alloc_count_simps)
  have ref: "spec_refused (it # q) st = rf"
    unfolding spec_refused_def k rf_def k'_def[symmetric] by (simp add: st'_def start_source_def)
  have ids: "spec_ids st = (True, g) # ids'"
    by (simp add: ids'_def st'_def spec_ids_def start_source_def r g)
  have "spec_allocate q st' = spec_allocate (it # q) st"
    unfolding spec_allocate_def Let_def k ref ids k'_def[symmetric] rf_def[symmetric]
      ids'_def[symmetric]
    by (simp add: st'_def start_source_def r g)
  then show ?thesis by (simp add: st'_def)
qed

lemma allocate_loop_spec: "allocate_loop q st = spec_allocate q st"
proof (induction q arbitrary: st)
  case Nil
  show ?case by (simp add: spec_allocate_Nil)
next
  case (Cons it q)
  show ?case
  proof (cases "recycledSources st = []")
    case False
    then show ?thesis
      by (simp add: Let_def Cons.IH spec_allocate_recycled)
  next
    case r: True
    show ?thesis
    proof (cases "maxSources st \<le> length (sources st)")
      case True
      with r show ?thesis by (simp add: spec_allocate_full)
    next
      case False
      then have n: "length (sources st) < maxSources st" by simp
      show ?thesis
      proof (cases "(case al_gen st of [] \<Rightarrow> 0 | g # gs \<Rightarrow> g) = 0")
        case True
        with r n show ?thesis by (simp add: Let_def spec_allocate_refused)
      next
        case False
        then obtain g gs where g: "al_gen st = g # gs" "g \<noteq> 0"
          by (cases "al_gen st") auto
        with r n show ?thesis
          by (simp add: Let_def Cons.IH spec_allocate_fresh)
      qed
    qed
  qed
qed

lemma spec_refused_below: "spec_refused q st \<Longrightarrow>
    length (sources st) + spec_allocated q st < maxSources st"
  by (simp add: spec_refused_def)

text \<open>
  C4. The allocate phase gives channels to the first \<open>k\<close> entries of the queue, in
  the queue's order, \<open>k\<close> being \<open>spec_allocated\<close>: it takes the recycled identifiers
  first (the last recycled first) and asks the backend for new ones only when none is
  left and while the number of active channels is below the cap. When the backend
  answers with the null identifier the cap becomes the number of active channels and
  the entries that are left get no channel; the cap changes in no other case, and it
  never grows. The queue is empty afterwards in every case.
\<close>

theorem allocate_phase_pool:
  "allocate_phase st =
     (let q = queue st;
          k = spec_allocated q st;
          ids = take k (spec_ids st);
          its = take k q;
          refused = spec_refused q st
      in st\<lparr>sources := sources st @ map2 (\<lambda>it i. \<lparr>sound = fst it, source = snd i\<rparr>) its ids,
            recycledSources := take (length (recycledSources st) - k) (recycledSources st),
            maxSources := (if refused then length (sources st) + k else maxSources st),
            al_gen := drop (k - length (recycledSources st) + (if refused then 1 else 0))
                        (al_gen st),
            al_log := al_log st @
              concat (map2 (\<lambda>it i. (if fst i then [alGenSources (snd i)] else []) @
                                     start_calls (heap st) it (snd i)) its ids) @
              (if refused then [alGenSources 0] else []),
            queue := []\<rparr>) \<and>
   queue (allocate_phase st) = [] \<and>
   maxSources (allocate_phase st) \<le> maxSources st \<and>
   (maxSources (allocate_phase st) < maxSources st) = spec_refused (queue st) st"
proof -
  have eq: "allocate_phase st = (spec_allocate (queue st) st)\<lparr>queue := []\<rparr>"
    by (simp add: allocate_phase_def allocate_loop_spec)
  have m: "maxSources (allocate_phase st) =
      (if spec_refused (queue st) st
       then length (sources st) + spec_allocated (queue st) st else maxSources st)"
    unfolding eq by (simp add: spec_allocate_def Let_def)
  have "maxSources (allocate_phase st) \<le> maxSources st"
    "(maxSources (allocate_phase st) < maxSources st) = spec_refused (queue st) st"
    unfolding m using spec_refused_below[of "queue st" st] by (simp_all add: less_imp_le)
  moreover have "queue (allocate_phase st) = []"
    by (simp add: allocate_phase_def)
  ultimately show ?thesis
    unfolding eq by (simp add: spec_allocate_def Let_def)
qed

theorem allocate_phase_pool_witness:
  "sources (allocate_phase ex_refuse) = [\<lparr>sound = 2, source = 5\<rparr>, \<lparr>sound = 3, source = 6\<rparr>] \<and>
   maxSources ex_refuse = 255 \<and> maxSources (allocate_phase ex_refuse) = 2 \<and>
   queue (allocate_phase ex_refuse) = [] \<and> spec_refused (queue ex_refuse) ex_refuse \<and>
   sources (allocate_phase ex_cap) = [\<lparr>sound = 2, source = 5\<rparr>, \<lparr>sound = 3, source = 6\<rparr>] \<and>
   maxSources (allocate_phase ex_cap) = 2 \<and> al_gen (allocate_phase ex_cap) = [7] \<and>
   \<not> spec_refused (queue ex_cap) ex_cap \<and>
   sources (allocate_phase ex_queued) =
     [\<lparr>sound = 1, source = 7\<rparr>, \<lparr>sound = 2, source = 8\<rparr>, \<lparr>sound = 1, source = 9\<rparr>] \<and>
   recycledSources (allocate_phase ex_queued) = [] \<and>
   maxSources (allocate_phase ex_queued) = 3"
proof -
  have k: "spec_allocated (queue ex_refuse) ex_refuse = 2"
    "spec_allocated (queue ex_cap) ex_cap = 2"
    "spec_allocated (queue ex_queued) ex_queued = 1"
    by (simp_all add: spec_allocated_def alloc_count_def ex_refuse_def ex_cap_def ex_queued_def
        ex_playing_def audio0_def)
  have r: "spec_refused (queue ex_refuse) ex_refuse = True"
    "spec_refused (queue ex_cap) ex_cap = False"
    "spec_refused (queue ex_queued) ex_queued = True"
    unfolding spec_refused_def k
    by (simp_all add: ex_refuse_def ex_cap_def ex_queued_def ex_playing_def audio0_def)
  have i: "spec_ids ex_refuse = [(True, 5), (True, 6)]"
    "spec_ids ex_cap = [(True, 5), (True, 6), (True, 7)]"
    "spec_ids ex_queued = [(False, 9)]"
    by (simp_all add: spec_ids_def ex_refuse_def ex_cap_def ex_queued_def ex_playing_def audio0_def)
  show ?thesis
    using allocate_phase_pool [of ex_refuse] allocate_phase_pool [of ex_cap]
      allocate_phase_pool [of ex_queued]
    unfolding Let_def k r i
    by (simp add: ex_refuse_def ex_cap_def ex_queued_def ex_playing_def audio0_def numeral_2_eq_2)
qed


section \<open>The invariant of the pool\<close>

lemma looping_sounds_filter:
  "looping_sounds st ss = filter (\<lambda>p. IsLooping (heap st p)) (map sound ss)"
  by (simp add: looping_sounds_def filter_map comp_def)

lemma sound_map2:
  "map sound (map2 (\<lambda>it i. \<lparr>sound = fst it, source = snd i\<rparr>) its ids) =
   map fst (take (length ids) its)"
proof (induction its arbitrary: ids)
  case Nil
  show ?case by simp
next
  case (Cons it its)
  show ?case
  proof (cases ids)
    case Nil
    then show ?thesis by simp
  next
    case (Cons i ids')
    with Cons.IH[of ids'] show ?thesis by simp
  qed
qed

text \<open>
  \<open>Step\<close> keeps the invariant that the theorem on the advance phase assumes: when
  the queue is a well-formed map and no two active channels are bound to the same
  looping sound, the same holds of the channels after \<open>Step\<close>.
\<close>

lemma Step_keeps_looping_distinct:
  assumes wf: "map_wf (queue st)" and inv: "distinct (looping_sounds st (sources st))"
  shows "distinct (looping_sounds (Step tid st) (sources (Step tid st)))"
proof (cases "tid = mainThreadID st")
  case False
  with inv show ?thesis by (simp add: Step_def)
next
  case True
  define LS where "LS = looping_sounds st (sources st)"
  define st1 where "st1 = advance_phase st"
  define q1 where "q1 = filter (\<lambda>kv. fst kv \<notin> set LS) (queue st)"
  define A where "A = filter (spec_retained st) (sources st)"
  have st1: "sources st1 = A" "queue st1 = q1" "heap st1 = heap st"
    unfolding st1_def A_def q1_def LS_def
    by (simp_all add: advance_phase_def advance_loop_char[OF inv])
  define k where "k = spec_allocated q1 st1"
  define B where
    "B = map2 (\<lambda>it i. \<lparr>sound = fst it, source = snd i\<rparr>) (take k q1) (take k (spec_ids st1))"
  have st2: "sources (allocate_phase st1) = A @ B" "heap (allocate_phase st1) = heap st"
    unfolding B_def k_def
    by (simp_all add: allocate_phase_def allocate_loop_spec spec_allocate_def Let_def st1)
  have step: "Step tid st = allocate_phase st1"
    using True by (simp add: Step_def st1_def)
  have ls: "looping_sounds (Step tid st) ss = looping_sounds st ss" for ss
    by (simp add: step looping_sounds_def st2)
  have "filter (\<lambda>s. IsLooping (heap st (sound s))) A =
      filter (spec_retained st) (filter (\<lambda>s. IsLooping (heap st (sound s))) (sources st))"
    unfolding A_def by (simp add: conj_commute)
  then have dA: "distinct (looping_sounds st A)"
    using inv unfolding looping_sounds_def
    by (simp only: distinct_map_filter)
  have subA: "set (looping_sounds st A) \<subseteq> set LS"
    unfolding LS_def A_def looping_sounds_def by auto
  have dq: "distinct (map fst q1)"
    unfolding q1_def using map_wf_distinct[OF wf] by (simp add: distinct_map_filter)
  have sB: "map sound B = map fst (take (length (take k (spec_ids st1))) (take k q1))"
    unfolding B_def by (rule sound_map2)
  have dB: "distinct (map sound B)"
    unfolding sB take_map[symmetric] using dq by (simp add: distinct_take)
  have subB: "set (map sound B) \<subseteq> fst ` set q1"
    unfolding sB by (auto dest!: in_set_takeD)
  have dis: "set (looping_sounds st A) \<inter> set (looping_sounds st B) = {}"
  proof -
    have "set (looping_sounds st B) \<subseteq> set (map sound B)"
      unfolding looping_sounds_filter by auto
    with subB have "set (looping_sounds st B) \<subseteq> fst ` set q1" by blast
    moreover have "fst ` set q1 \<inter> set LS = {}"
      unfolding q1_def by auto
    ultimately show ?thesis using subA by blast
  qed
  have "distinct (looping_sounds st B)"
    unfolding looping_sounds_filter using dB by (rule distinct_filter)
  with dA dis have "distinct (looping_sounds st (A @ B))"
    by (simp add: looping_sounds_def)
  moreover have "sources (Step tid st) = A @ B"
    by (simp add: step st2)
  ultimately show ?thesis
    by (simp only: ls)
qed

text \<open>
  \<open>Play\<close> keeps both maps well-formed and touches neither the channels nor the heap,
  so it keeps the invariant too.
\<close>

lemma Play_keeps_invariant:
  "map_wf (queue st) \<Longrightarrow> map_wf (deferred st) \<Longrightarrow>
   map_wf (queue (Play sptr p v tid st)) \<and> map_wf (deferred (Play sptr p v tid st)) \<and>
   sources (Play sptr p v tid st) = sources st \<and> heap (Play sptr p v tid st) = heap st"
  by (simp add: Play_def map_wf_map_modify)

section \<open>The name of a path\<close>

lemma rfind_scan_Some:
  "rfind_scan pat s i found = Some j \<Longrightarrow> pat \<noteq> [] \<Longrightarrow>
   found = Some j \<or> (\<exists>n. j = i + n \<and> take (length pat) (drop n s) = pat)"
proof (induction s arbitrary: i found)
  case Nil
  then show ?case by simp
next
  case (Cons c cs)
  let ?found = "if take (length pat) (c # cs) = pat then Some i else found"
  from Cons.prems have "rfind_scan pat cs (Suc i) ?found = Some j" by simp
  from Cons.IH[OF this Cons.prems(2)]
  consider "?found = Some j" | n where "j = Suc i + n" "take (length pat) (drop n cs) = pat"
    by blast
  then show ?case
  proof cases
    case 1
    show ?thesis
    proof (cases "take (length pat) (c # cs) = pat")
      case True
      with 1 have "j = i + 0 \<and> take (length pat) (drop 0 (c # cs)) = pat" by simp
      then show ?thesis by blast
    next
      case False
      with 1 show ?thesis by simp
    qed
  next
    case 2
    then have "j = i + Suc n \<and> take (length pat) (drop (Suc n) (c # cs)) = pat" by simp
    then show ?thesis by blast
  qed
qed

text \<open>
  The subtractions of \<open>Name\<close> never go below zero where the code computes them on
  \<^verbatim>\<open>size_t\<close>: a path that ends in \<open>.wav\<close> and holds \<open>sounds/\<close> at position \<open>i\<close> has
  \<open>i + 7 \<le> length path - 4\<close>, and a \<open>~\<close> before the extension lies at or after
  position \<open>i + 7\<close>.
\<close>

lemma Name_bounds:
  assumes len: "4 \<le> length path"
    and wav: "take 4 (drop (length path - 4) path) = ''.wav''"
    and found: "rfind ''sounds/'' path = Some i"
  shows "i + 7 \<le> length path - 4"
    and "path ! (length path - 4 - 1) = CHR ''~'' \<Longrightarrow> i + 7 \<le> length path - 4 - 1"
proof -
  from found have "rfind_scan ''sounds/'' path 0 None = Some i" by (simp add: rfind_def)
  from rfind_scan_Some[OF this]
  have "\<exists>n. i = 0 + n \<and> take (length ''sounds/'') (drop n path) = ''sounds/''"
    by simp
  moreover have "length ''sounds/'' = 7" by simp
  ultimately have at: "take 7 (drop i path) = ''sounds/''"
    by (simp only: add_0) blast
  then have "length (take 7 (drop i path)) = 7" by simp
  then have fits: "i + 7 \<le> length path" by simp
  have slash: "path ! (i + 6) = CHR ''/''"
  proof -
    have "take 7 (drop i path) ! 6 = path ! (i + 6)" using fits by simp
    with at show ?thesis by simp
  qed
  have suffix: "path ! (length path - 4 + m) = ''.wav'' ! m" if "m < 4" for m
  proof -
    have "take 4 (drop (length path - 4) path) ! m = path ! (length path - 4 + m)"
      using that len by simp
    with wav show ?thesis by simp
  qed
  show 1: "i + 7 \<le> length path - 4"
  proof (rule ccontr)
    assume "\<not> i + 7 \<le> length path - 4"
    with fits len have "i + 6 - (length path - 4) < 4"
      and "i + 6 = length path - 4 + (i + 6 - (length path - 4))"
      by arith+
    then obtain m where m: "m < 4" "i + 6 = length path - 4 + m"
      by blast
    from suffix[OF m(1)] m(2) slash have "''.wav'' ! m = CHR ''/''" by simp
    with m(1) show False
      by (cases m rule: nat.exhaust) (auto simp: less_Suc_eq numeral_eq_Suc nth_Cons')
  qed
  show "i + 7 \<le> length path - 4 - 1" if "path ! (length path - 4 - 1) = CHR ''~''"
  proof (rule ccontr)
    assume "\<not> i + 7 \<le> length path - 4 - 1"
    with 1 have "length path - 4 - 1 = i + 6" by simp
    with that slash show False by simp
  qed
qed

section \<open>Requests that are ignored\<close>

text \<open>
  With an empty queue, as it stays while every request is ignored, the first loop of
  \<open>Step\<close> keeps the channels that are not looping and still play, and stops every
  looping channel.
\<close>

lemma advance_loop_empty_queue:
  "queue st = [] \<Longrightarrow>
   advance_loop ss ns st =
     (ns @ filter (\<lambda>s. \<not> IsLooping (heap st (sound s)) \<and> al_playing st (source s)) ss,
      st\<lparr>al_log := al_log st @ concat (map (advance_calls st) ss),
         recycledSources :=
           recycledSources st @
           map source
             (filter (\<lambda>s. \<not> (\<not> IsLooping (heap st (sound s)) \<and> al_playing st (source s))) ss)\<rparr>)"
proof (induction ss arbitrary: ns st)
  case Nil
  show ?case by simp
next
  case (Cons s ss)
  show ?case
  proof (cases "IsLooping (heap st (sound s))")
    case True
    let ?st = "st\<lparr>al_log := al_log st @ [alSourceStop (source s)],
                  recycledSources := recycledSources st @ [source s]\<rparr>"
    have q: "queue ?st = []" using Cons.prems by simp
    have step: "advance_loop (s # ss) ns st = advance_loop ss ns ?st"
      using True Cons.prems by simp
    have calls: "advance_calls st s = [alSourceStop (source s)]"
      using True Cons.prems by (simp add: advance_calls_def)
    show ?thesis
      unfolding step Cons.IH[OF q]
      by (simp add: calls_frame calls True)
  next
    case False
    have calls: "advance_calls st s = [alGetSourcei_STATE (source s)]"
      using False by (simp add: advance_calls_def)
    show ?thesis
    proof (cases "al_playing st (source s)")
      case True
      let ?st = "st\<lparr>al_log := al_log st @ [alGetSourcei_STATE (source s)]\<rparr>"
      have q: "queue ?st = []" using Cons.prems by simp
      have step: "advance_loop (s # ss) ns st = advance_loop ss (ns @ [s]) ?st"
        using False True by simp
      show ?thesis
        unfolding step Cons.IH[OF q]
        by (simp add: calls_frame calls False True)
    next
      case np: False
      let ?st = "st\<lparr>al_log := al_log st @ [alGetSourcei_STATE (source s)],
                    recycledSources := recycledSources st @ [source s]\<rparr>"
      have q: "queue ?st = []" using Cons.prems by simp
      have step: "advance_loop (s # ss) ns st = advance_loop ss ns ?st"
        using False np by simp
      show ?thesis
        unfolding step Cons.IH[OF q]
        by (simp add: calls_frame calls False np)
    qed
  qed
qed

lemma Step_empty_queue:
  "queue st = [] \<Longrightarrow>
   Step (mainThreadID st) st =
     st\<lparr>sources :=
          filter (\<lambda>s. \<not> IsLooping (heap st (sound s)) \<and> al_playing st (source s)) (sources st),
        al_log := al_log st @ concat (map (advance_calls st) (sources st)),
        recycledSources :=
          recycledSources st @
          map source
            (filter (\<lambda>s. \<not> (\<not> IsLooping (heap st (sound s)) \<and> al_playing st (source s)))
               (sources st))\<rparr>"
  by (simp add: Step_def advance_phase_def allocate_phase_def advance_loop_empty_queue)

text \<open>
  C7, as the claim states it, fails in its last part. With the looping sound 1 on
  channel 7 and the same request made in both cases, \<open>Step\<close> keeps channel 7 at volume
  1; at volume 0 the request is ignored, and \<open>Step\<close> stops channel 7 and recycles its
  identifier.
\<close>

theorem zero_volume_stops_looping_counterexample:
  "sources (Step 1 (Play 1 \<lparr>X = 3, Y = 4\<rparr> Point0 1 ex_vol)) =
     [\<lparr>sound = 1, source = 7\<rparr>, \<lparr>sound = 2, source = 8\<rparr>] \<and>
   volume (SetVolume 0 ex_vol) = 0 \<and>
   sources (SetVolume 0 ex_vol) = [\<lparr>sound = 1, source = 7\<rparr>, \<lparr>sound = 2, source = 8\<rparr>] \<and>
   sources (Step 1 (Play 1 \<lparr>X = 3, Y = 4\<rparr> Point0 1 (SetVolume 0 ex_vol))) =
     [\<lparr>sound = 2, source = 8\<rparr>] \<and>
   recycledSources (Step 1 (Play 1 \<lparr>X = 3, Y = 4\<rparr> Point0 1 (SetVolume 0 ex_vol))) = [7] \<and>
   al_log (Step 1 (Play 1 \<lparr>X = 3, Y = 4\<rparr> Point0 1 (SetVolume 0 ex_vol))) =
     [alListenerf_GAIN 0, alSourceStop 7, alGetSourcei_STATE 8]"
  by (simp add: Step_def advance_phase_def allocate_phase_def Play_def SetVolume_def ex_vol_def
      ex_playing_def audio0_def ex_heap_def map_erase_def)

text \<open>
  C7, amended. A \<open>Play\<close> call with a null sound, with a sound whose buffer is not
  loaded, or while the volume is zero returns the state as it was, whichever thread
  calls it: neither \<open>queue\<close> nor \<open>deferred\<close> changes, and there is no error value to
  return. Setting the volume to zero touches no channel itself: the active and the
  recycled sources stay as they are and the only backend call is the listener gain.
  But the \<open>Step\<close> that finds the queue empty, as it is when every request was ignored,
  keeps only the channels that are not looping and still play: it stops every looping
  channel and recycles its identifier.
\<close>

theorem Play_ignored:
  "(sptr = 0 \<or> Buffer (heap st sptr) = 0 \<or> volume st = 0 \<longrightarrow>
      Play sptr position velocity tid st = st) \<and>
   volume (SetVolume 0 st) = 0 \<and>
   sources (SetVolume 0 st) = sources st \<and>
   recycledSources (SetVolume 0 st) = recycledSources st \<and>
   al_log (SetVolume 0 st) = al_log st @ [alListenerf_GAIN 0] \<and>
   (queue st = [] \<longrightarrow>
      sources (Step (mainThreadID st) st) =
        filter (\<lambda>s. \<not> IsLooping (heap st (sound s)) \<and> al_playing st (source s)) (sources st) \<and>
      recycledSources (Step (mainThreadID st) st) =
        recycledSources st @
        map source
          (filter (\<lambda>s. \<not> (\<not> IsLooping (heap st (sound s)) \<and> al_playing st (source s)))
             (sources st)) \<and>
      (\<forall>s \<in> set (sources st). IsLooping (heap st (sound s)) \<longrightarrow>
         alSourceStop (source s) \<in> set (al_log (Step (mainThreadID st) st))))"
proof -
  have stop: "alSourceStop (source s) \<in> set (al_log (Step (mainThreadID st) st))"
    if "queue st = []" "s \<in> set (sources st)" "IsLooping (heap st (sound s))" for s
  proof -
    have "advance_calls st s = [alSourceStop (source s)]"
      using that(1,3) by (simp add: advance_calls_def)
    then have "alSourceStop (source s) \<in> set (advance_calls st s)" by simp
    with that(2)
    have "alSourceStop (source s) \<in> set (concat (map (advance_calls st) (sources st)))"
      unfolding set_concat set_map by blast
    then show ?thesis by (simp add: Step_empty_queue[OF that(1)])
  qed
  show ?thesis
    using stop by (simp add: Play_def SetVolume_def Step_empty_queue)
qed

theorem Play_ignored_witness:
  "volume (SetVolume 0 ex_vol) = 0 \<and>
   Play 1 \<lparr>X = 3, Y = 4\<rparr> Point0 1 (SetVolume 0 ex_vol) = SetVolume 0 ex_vol \<and>
   Play 1 \<lparr>X = 3, Y = 4\<rparr> Point0 2 (SetVolume 0 ex_vol) = SetVolume 0 ex_vol \<and>
   Play 0 \<lparr>X = 3, Y = 4\<rparr> Point0 1 ex_vol = ex_vol \<and>
   Play 5 \<lparr>X = 3, Y = 4\<rparr> Point0 1 ex_vol = ex_vol \<and>
   sources (SetVolume 0 ex_vol) = [\<lparr>sound = 1, source = 7\<rparr>, \<lparr>sound = 2, source = 8\<rparr>] \<and>
   queue (SetVolume 0 ex_vol) = [] \<and>
   sources (Step 1 (SetVolume 0 ex_vol)) = [\<lparr>sound = 2, source = 8\<rparr>] \<and>
   recycledSources (Step 1 (SetVolume 0 ex_vol)) = [7] \<and>
   alSourceStop 7 \<in> set (al_log (Step 1 (SetVolume 0 ex_vol)))"
proof -
  have m: "mainThreadID (SetVolume 0 ex_vol) = 1" "queue (SetVolume 0 ex_vol) = []"
    by (simp_all add: SetVolume_def ex_vol_def ex_playing_def audio0_def)
  have f: "sources (SetVolume 0 ex_vol) = [\<lparr>sound = 1, source = 7\<rparr>, \<lparr>sound = 2, source = 8\<rparr>]"
    "heap (SetVolume 0 ex_vol) = ex_heap" "al_playing (SetVolume 0 ex_vol) = (\<lambda>i. i = 8)"
    "recycledSources (SetVolume 0 ex_vol) = []"
    by (simp_all add: SetVolume_def ex_vol_def ex_playing_def audio0_def)
  show ?thesis
    using Play_ignored [of 1 "SetVolume 0 ex_vol" "\<lparr>X = 3, Y = 4\<rparr>" Point0 1]
      Play_ignored [of 1 "SetVolume 0 ex_vol" "\<lparr>X = 3, Y = 4\<rparr>" Point0 2]
      Play_ignored [of 0 ex_vol "\<lparr>X = 3, Y = 4\<rparr>" Point0 1]
      Play_ignored [of 5 ex_vol "\<lparr>X = 3, Y = 4\<rparr>" Point0 1]
    unfolding m f
    by (simp add: ex_vol_def ex_playing_def audio0_def ex_heap_def Sound0_def)
qed

section \<open>Deferred requests reach the channels\<close>

lemma spec_allocated_le_ids: "spec_allocated q st \<le> length (spec_ids st)"
  unfolding spec_allocated_def spec_ids_def alloc_count_def by simp

lemma start_calls_explicit:
  "alSource3f_POSITION i (X (Position e) * 0.001) (Y (Position e) * 0.001) 0
     \<in> set (start_calls h (k, e) i)"
  "alSource3f_VELOCITY i (X (Velocity e) * 0.001) (Y (Velocity e) * 0.001) 0
     \<in> set (start_calls h (k, e) i)"
  "alSourcePlay i \<in> set (start_calls h (k, e) i)"
  by (simp_all add: start_calls_def Move_def)

text \<open>
  An entry among those that the allocate phase serves gets a channel bound to its
  sound, and the calls that start the channel are among the new calls of the log.
\<close>

lemma spec_allocate_entry:
  assumes "(k, e) \<in> set (take (spec_allocated q st) q)"
  shows "\<exists>i. \<lparr>sound = k, source = i\<rparr> \<in> set (sources (spec_allocate q st)) \<and>
     set (start_calls (heap st) (k, e) i) \<subseteq>
       set (drop (length (al_log st)) (al_log (spec_allocate q st)))"
proof -
  define kk where "kk = spec_allocated q st"
  define its where "its = take kk q"
  define ids where "ids = take kk (spec_ids st)"
  let ?mk = "\<lambda>it i. \<lparr>sound = fst it, source = snd (i :: bool \<times> nat)\<rparr>"
  let ?F = "\<lambda>it i. (if fst i then [alGenSources (snd i)] else []) @
                     start_calls (heap st) it (snd (i :: bool \<times> nat))"
  from assms obtain j where j: "j < length its" "its ! j = (k, e)"
    unfolding its_def kk_def by (auto simp: in_set_conv_nth)
  have "length its \<le> kk" by (simp add: its_def)
  moreover have "length ids = kk"
    using spec_allocated_le_ids[of q st] by (simp add: ids_def kk_def)
  ultimately have j': "j < length ids" using j(1) by simp
  have z: "(its ! j, ids ! j) \<in> set (zip its ids)"
    using j(1) j' by (metis length_zip min_less_iff_conj nth_mem nth_zip)
  have src: "sources (spec_allocate q st) = sources st @ map2 ?mk its ids"
    by (simp add: spec_allocate_def Let_def its_def ids_def kk_def)
  have log: "drop (length (al_log st)) (al_log (spec_allocate q st)) =
      concat (map2 ?F its ids) @ (if spec_refused q st then [alGenSources 0] else [])"
    by (simp add: spec_allocate_def Let_def its_def ids_def kk_def)
  have "?mk (its ! j) (ids ! j) \<in> set (map2 ?mk its ids)"
    using z by (force simp: set_map)
  then have 1: "\<lparr>sound = k, source = snd (ids ! j)\<rparr> \<in> set (sources (spec_allocate q st))"
    unfolding src by (simp add: j(2))
  have "?F (its ! j) (ids ! j) \<in> set (map2 ?F its ids)"
    using z by (force simp: set_map)
  then have "set (?F (its ! j) (ids ! j)) \<subseteq> set (concat (map2 ?F its ids))"
    by (metis (no_types, lifting) Sup_upper image_eqI set_concat)
  then have 2: "set (start_calls (heap st) (k, e) (snd (ids ! j))) \<subseteq>
      set (drop (length (al_log st)) (al_log (spec_allocate q st)))"
    unfolding log by (auto simp: j(2))
  from 1 2 show ?thesis by blast
qed

lemma spec_allocate_log:
  "al_log (spec_allocate q st) =
   al_log st @ drop (length (al_log st)) (al_log (spec_allocate q st))"
  by (simp add: spec_allocate_def Let_def)

lemma Add_entry_fields:
  "Add_entry d e =
     \<lparr>sum_e = \<lparr>X = X (sum_e e) + X (sum_e d), Y = Y (sum_e e) + Y (sum_e d)\<rparr>,
      speed = speed e + speed d,
      weight = weight e + weight d\<rparr>"
  by (simp add: Add_entry_def P_add_def)

text \<open>
  What the \<open>Step\<close> of the main thread does with an entry \<open>(k, e)\<close> of the queue, when
  no two active channels are bound to the same looping sound. If a channel is bound
  to the looping sound \<open>k\<close>, the channel stays and its position and velocity are set
  from \<open>e\<close>. Otherwise the entry is one of those the allocate phase runs over, and if
  it is among the ones that phase serves, a channel bound to \<open>k\<close> is active afterwards
  that was given the position and velocity of \<open>e\<close> and was started.
\<close>

lemma Step_consumes_entry:
  assumes inv: "distinct (looping_sounds st (sources st))"
    and e: "map_of (queue st) k = Some e"
  shows "queue (Step (mainThreadID st) st) = [] \<and>
    (if k \<in> set (looping_sounds st (sources st))
     then \<exists>s \<in> set (sources st). sound s = k \<and> s \<in> set (sources (Step (mainThreadID st) st)) \<and>
            alSource3f_POSITION (source s) (X (Position e) * 0.001) (Y (Position e) * 0.001) 0
              \<in> set (drop (length (al_log st)) (al_log (Step (mainThreadID st) st))) \<and>
            alSource3f_VELOCITY (source s) (X (Velocity e) * 0.001) (Y (Velocity e) * 0.001) 0
              \<in> set (drop (length (al_log st)) (al_log (Step (mainThreadID st) st)))
     else (k, e) \<in> set (queue (advance_phase st)) \<and>
          ((k, e) \<in> set (take (spec_allocated (queue (advance_phase st)) (advance_phase st))
                              (queue (advance_phase st))) \<longrightarrow>
           (\<exists>i. \<lparr>sound = k, source = i\<rparr> \<in> set (sources (Step (mainThreadID st) st)) \<and>
              alSource3f_POSITION i (X (Position e) * 0.001) (Y (Position e) * 0.001) 0
                \<in> set (drop (length (al_log st)) (al_log (Step (mainThreadID st) st))) \<and>
              alSource3f_VELOCITY i (X (Velocity e) * 0.001) (Y (Velocity e) * 0.001) 0
                \<in> set (drop (length (al_log st)) (al_log (Step (mainThreadID st) st))) \<and>
              alSourcePlay i
                \<in> set (drop (length (al_log st)) (al_log (Step (mainThreadID st) st))))))"
proof -
  define st1 where "st1 = advance_phase st"
  define fin where "fin = Step (mainThreadID st) st"
  define L1 where "L1 = concat (map (advance_calls st) (sources st))"
  define L2 where "L2 = drop (length (al_log st1)) (al_log (spec_allocate (queue st1) st1))"
  have st1: "sources st1 = filter (spec_retained st) (sources st)"
    "queue st1 = filter (\<lambda>kv. fst kv \<notin> set (looping_sounds st (sources st))) (queue st)"
    "al_log st1 = al_log st @ L1" "heap st1 = heap st"
    unfolding st1_def L1_def
    by (simp_all add: advance_phase_def advance_loop_char[OF inv])
  have fin: "fin = (spec_allocate (queue st1) st1)\<lparr>queue := []\<rparr>"
    by (simp add: fin_def st1_def Step_def allocate_phase_def allocate_loop_spec)
  have fsrc: "sources fin = sources (spec_allocate (queue st1) st1)"
    and flog: "al_log fin = al_log st @ L1 @ L2"
    and fq: "queue fin = []"
    unfolding fin L2_def using spec_allocate_log[of "queue st1" st1] by (simp_all add: st1)
  have new: "drop (length (al_log st)) (al_log fin) = L1 @ L2"
    by (simp add: flog)
  have keep: "set (sources st1) \<subseteq> set (sources fin)"
    unfolding fsrc by (simp add: spec_allocate_def Let_def)
  have inq: "(k, e) \<in> set (queue st)"
    using e by (rule map_of_SomeD)
  have A: "\<exists>s \<in> set (sources st). sound s = k \<and> s \<in> set (sources fin) \<and>
            alSource3f_POSITION (source s) (X (Position e) * 0.001) (Y (Position e) * 0.001) 0
              \<in> set (L1 @ L2) \<and>
            alSource3f_VELOCITY (source s) (X (Velocity e) * 0.001) (Y (Velocity e) * 0.001) 0
              \<in> set (L1 @ L2)"
    if "k \<in> set (looping_sounds st (sources st))"
  proof -
    from that obtain s where s: "s \<in> set (sources st)" "sound s = k"
      "IsLooping (heap st (sound s))"
      by (auto simp: looping_sounds_def)
    have "sound s \<in> fst ` set (queue st)"
      using inq s(2) by force
    with s(3) have "spec_retained st s" by (simp add: spec_retained_def)
    with s(1) have "s \<in> set (sources st1)" by (simp add: st1)
    with keep have in_fin: "s \<in> set (sources fin)" by blast
    have c: "advance_calls st s =
        [alSource3f_POSITION (source s) (X (Position e) * 0.001) (Y (Position e) * 0.001) 0,
         alSource3f_VELOCITY (source s) (X (Velocity e) * 0.001) (Y (Velocity e) * 0.001) 0]"
      using s(2,3) e by (simp add: advance_calls_def)
    have "set (advance_calls st s) \<subseteq> set L1"
      unfolding L1_def using s(1) by auto
    then have "alSource3f_POSITION (source s) (X (Position e) * 0.001) (Y (Position e) * 0.001) 0
          \<in> set (L1 @ L2) \<and>
        alSource3f_VELOCITY (source s) (X (Velocity e) * 0.001) (Y (Velocity e) * 0.001) 0
          \<in> set (L1 @ L2)"
      unfolding c by simp
    with s(1,2) in_fin show ?thesis by blast
  qed
  have B1: "(k, e) \<in> set (queue st1)" if "k \<notin> set (looping_sounds st (sources st))"
    using inq that by (simp add: st1)
  have B2: "\<exists>i. \<lparr>sound = k, source = i\<rparr> \<in> set (sources fin) \<and>
        alSource3f_POSITION i (X (Position e) * 0.001) (Y (Position e) * 0.001) 0
          \<in> set (L1 @ L2) \<and>
        alSource3f_VELOCITY i (X (Velocity e) * 0.001) (Y (Velocity e) * 0.001) 0
          \<in> set (L1 @ L2) \<and>
        alSourcePlay i \<in> set (L1 @ L2)"
    if "(k, e) \<in> set (take (spec_allocated (queue st1) st1) (queue st1))"
  proof -
    from spec_allocate_entry[OF that] obtain i where
      i: "\<lparr>sound = k, source = i\<rparr> \<in> set (sources (spec_allocate (queue st1) st1))"
      "set (start_calls (heap st1) (k, e) i) \<subseteq> set L2"
      unfolding L2_def by blast
    from i(2) start_calls_explicit[where i = i and e = e and h = "heap st1" and k = k]
    have "alSource3f_POSITION i (X (Position e) * 0.001) (Y (Position e) * 0.001) 0 \<in> set L2"
      "alSource3f_VELOCITY i (X (Velocity e) * 0.001) (Y (Velocity e) * 0.001) 0 \<in> set L2"
      "alSourcePlay i \<in> set L2"
      by blast+
    with i(1) show ?thesis unfolding fsrc by auto
  qed
  show ?thesis
    unfolding fin_def[symmetric] st1_def[symmetric] new
    using fq A B1 B2 by simp
qed

lemma Update_frame:
  "sources (Update lp lv st) = sources st"
  "mainThreadID (Update lp lv st) = mainThreadID st"
  "al_log (Update lp lv st) = al_log st"
  "looping_sounds (Update lp lv st) = looping_sounds st"
  by (simp_all add: Update_def looping_sounds_def fun_eq_iff)

text \<open>
  C5. Let \<open>queue\<close> and \<open>deferred\<close> be well-formed maps and no two active channels be
  bound to the same looping sound. Then \<open>Update\<close> leaves \<open>deferred\<close> empty, and the
  queue it leaves holds, for every sound with an entry in \<open>deferred\<close>, the entry of
  \<open>queue\<close> (a fresh one when \<open>queue\<close> had none) with the sum, the speed and the weight
  of the deferred entry added to its own; the entries of the other sounds are as
  before. In particular a request that a thread other than the main thread makes
  before \<open>Update\<close>, for a loaded sound at a volume that is not zero, is in the queue
  after \<open>Update\<close>: its weight, weighted position and weighted speed are part of the
  sound's entry. The \<open>Step\<close> of the main thread that follows consumes every entry of
  that queue: the entry of a looping sound with a channel keeps the channel and sets
  its position and velocity; any other entry is handed to the allocate phase, which
  starts a channel at the entry's position and velocity for each entry it serves; and
  the queue is empty afterwards.
\<close>

theorem Update_merges_deferred:
  fixes st :: audio and lp lv p v :: Point and sptr tid :: nat
  defines "U \<equiv> Update lp lv st"
    and "rp \<equiv> P_sub p (listener st)"
    and "rv \<equiv> P_sub v (listenerVelocity st)"
  assumes "map_wf (queue st)" and "map_wf (deferred st)"
    and "distinct (looping_sounds st (sources st))"
  shows "deferred U = [] \<and>
    map_wf (queue U) \<and>
    (\<forall>k. map_of (queue U) k =
       (case map_of (deferred st) k of
          None \<Rightarrow> map_of (queue st) k
        | Some d \<Rightarrow>
            (case (case map_of (queue st) k of None \<Rightarrow> QueueEntry0 | Some e \<Rightarrow> e) of e \<Rightarrow>
               Some \<lparr>sum_e = \<lparr>X = X (sum_e e) + X (sum_e d), Y = Y (sum_e e) + Y (sum_e d)\<rparr>,
                     speed = speed e + speed d,
                     weight = weight e + weight d\<rparr>))) \<and>
    (tid \<noteq> mainThreadID st \<and> sptr \<noteq> 0 \<and> Buffer (heap st sptr) \<noteq> 0 \<and> volume st \<noteq> 0 \<longrightarrow>
       (\<exists>e d0 q0.
          d0 = (case map_of (deferred st) sptr of None \<Rightarrow> QueueEntry0 | Some d \<Rightarrow> d) \<and>
          q0 = (case map_of (queue st) sptr of None \<Rightarrow> QueueEntry0 | Some q \<Rightarrow> q) \<and>
          map_of (queue (Update lp lv (Play sptr p v tid st))) sptr = Some e \<and>
          weight e = weight q0 + (weight d0 + 1 / max 1 (Dot rp rp)) \<and>
          X (sum_e e) = X (sum_e q0) + (X (sum_e d0) + 1 / max 1 (Dot rp rp) * X rp) \<and>
          Y (sum_e e) = Y (sum_e q0) + (Y (sum_e d0) + 1 / max 1 (Dot rp rp) * Y rp) \<and>
          speed e = speed q0 +
            (speed d0 + 1 / max 1 (Dot rp rp) * sqrt (1 / max 1 (Dot rp rp)) * Dot rp rv))) \<and>
    queue (Step (mainThreadID st) U) = [] \<and>
    (\<forall>k e. map_of (queue U) k = Some e \<longrightarrow>
       (if k \<in> set (looping_sounds st (sources st))
        then \<exists>s \<in> set (sources st). sound s = k \<and> s \<in> set (sources (Step (mainThreadID st) U)) \<and>
            alSource3f_POSITION (source s) (X (Position e) * 0.001) (Y (Position e) * 0.001) 0
              \<in> set (drop (length (al_log st)) (al_log (Step (mainThreadID st) U))) \<and>
            alSource3f_VELOCITY (source s) (X (Velocity e) * 0.001) (Y (Velocity e) * 0.001) 0
              \<in> set (drop (length (al_log st)) (al_log (Step (mainThreadID st) U)))
        else (k, e) \<in> set (queue (advance_phase U)) \<and>
          ((k, e) \<in> set (take (spec_allocated (queue (advance_phase U)) (advance_phase U))
                              (queue (advance_phase U))) \<longrightarrow>
           (\<exists>i. \<lparr>sound = k, source = i\<rparr> \<in> set (sources (Step (mainThreadID st) U)) \<and>
              alSource3f_POSITION i (X (Position e) * 0.001) (Y (Position e) * 0.001) 0
                \<in> set (drop (length (al_log st)) (al_log (Step (mainThreadID st) U))) \<and>
              alSource3f_VELOCITY i (X (Velocity e) * 0.001) (Y (Velocity e) * 0.001) 0
                \<in> set (drop (length (al_log st)) (al_log (Step (mainThreadID st) U))) \<and>
              alSourcePlay i
                \<in> set (drop (length (al_log st)) (al_log (Step (mainThreadID st) U)))))))"
proof -
  note wfq = assms(4) and wfd = assms(5) and inv = assms(6)
  have look: "map_wf (merge_deferred (deferred st) (queue st)) \<and>
     map_of (merge_deferred (deferred st) (queue st)) k =
     (case map_of (deferred st) k of
        None \<Rightarrow> map_of (queue st) k
      | Some d \<Rightarrow> Some (Add_entry d (case map_of (queue st) k of None \<Rightarrow> QueueEntry0 | Some e \<Rightarrow> e)))"
    for k
    by (rule merge_deferred_lookup[OF wfq map_wf_distinct[OF wfd]])
  have 1: "deferred U = []" and 2: "map_wf (queue U)"
    using look by (simp_all add: U_def Update_def)
  have 3: "map_of (queue U) k =
       (case map_of (deferred st) k of
          None \<Rightarrow> map_of (queue st) k
        | Some d \<Rightarrow>
            (case (case map_of (queue st) k of None \<Rightarrow> QueueEntry0 | Some e \<Rightarrow> e) of e \<Rightarrow>
               Some \<lparr>sum_e = \<lparr>X = X (sum_e e) + X (sum_e d), Y = Y (sum_e e) + Y (sum_e d)\<rparr>,
                     speed = speed e + speed d,
                     weight = weight e + weight d\<rparr>))" for k
    using look[of k] by (simp add: U_def Update_def Add_entry_fields split: option.splits)
  have 4: "\<exists>e d0 q0.
          d0 = (case map_of (deferred st) sptr of None \<Rightarrow> QueueEntry0 | Some d \<Rightarrow> d) \<and>
          q0 = (case map_of (queue st) sptr of None \<Rightarrow> QueueEntry0 | Some q \<Rightarrow> q) \<and>
          map_of (queue (Update lp lv (Play sptr p v tid st))) sptr = Some e \<and>
          weight e = weight q0 + (weight d0 + 1 / max 1 (Dot rp rp)) \<and>
          X (sum_e e) = X (sum_e q0) + (X (sum_e d0) + 1 / max 1 (Dot rp rp) * X rp) \<and>
          Y (sum_e e) = Y (sum_e q0) + (Y (sum_e d0) + 1 / max 1 (Dot rp rp) * Y rp) \<and>
          speed e = speed q0 +
            (speed d0 + 1 / max 1 (Dot rp rp) * sqrt (1 / max 1 (Dot rp rp)) * Dot rp rv)"
    if req: "tid \<noteq> mainThreadID st" "sptr \<noteq> 0" "Buffer (heap st sptr) \<noteq> 0" "volume st \<noteq> 0"
  proof -
    let ?P = "Play sptr p v tid st"
    define d0 where "d0 = (case map_of (deferred st) sptr of None \<Rightarrow> QueueEntry0 | Some d \<Rightarrow> d)"
    define q0 where "q0 = (case map_of (queue st) sptr of None \<Rightarrow> QueueEntry0 | Some q \<Rightarrow> q)"
    from Play_deferred[OF req wfd, of p v]
    have P: "map_wf (deferred ?P)" "queue ?P = queue st"
      "map_of (deferred ?P) sptr = Some (Add rp rv d0)"
      by (simp_all add: rp_def rv_def d0_def)
    from merge_deferred_lookup[OF wfq map_wf_distinct[OF P(1)], of sptr]
    have "map_of (queue (Update lp lv ?P)) sptr = Some (Add_entry (Add rp rv d0) q0)"
      unfolding P(3) by (simp add: Update_def P(2) q0_def)
    moreover have "weight (Add_entry (Add rp rv d0) q0) =
        weight q0 + (weight d0 + 1 / max 1 (Dot rp rp))"
      "X (sum_e (Add_entry (Add rp rv d0) q0)) =
        X (sum_e q0) + (X (sum_e d0) + 1 / max 1 (Dot rp rp) * X rp)"
      "Y (sum_e (Add_entry (Add rp rv d0) q0)) =
        Y (sum_e q0) + (Y (sum_e d0) + 1 / max 1 (Dot rp rp) * Y rp)"
      "speed (Add_entry (Add rp rv d0) q0) = speed q0 +
        (speed d0 + 1 / max 1 (Dot rp rp) * sqrt (1 / max 1 (Dot rp rp)) * Dot rp rv)"
      by (simp_all add: Add_entry_def Add_def Let_def P_add_def P_scale_def)
    ultimately show ?thesis
      unfolding d0_def q0_def by blast
  qed
  have invU: "distinct (looping_sounds U (sources U))"
    using inv by (simp add: U_def Update_frame)
  note 5 = Step_consumes_entry[OF invU, unfolded U_def Update_frame, folded U_def]
  have "mainThreadID U = mainThreadID st"
    by (simp add: U_def Update_frame)
  then have 6: "queue (Step (mainThreadID st) U) = []"
    by (simp add: Step_def allocate_phase_def)
  show ?thesis
    using 1 2 3 4 5 6 by blast
qed

lemma ex_deferred_fields:
  "mainThreadID ex_deferred = 1" "heap ex_deferred = ex_heap"
  "sources ex_deferred = [\<lparr>sound = 1, source = 7\<rparr>, \<lparr>sound = 2, source = 8\<rparr>]"
  "recycledSources ex_deferred = [9]" "al_playing ex_deferred = (\<lambda>i. False)"
  "al_gen ex_deferred = []" "al_log ex_deferred = []" "maxSources ex_deferred = 255"
  by (simp_all add: ex_deferred_def ex_queued_def ex_playing_def audio0_def ex_heap_def Play_def)

lemma ex_deferred_entries:
  "Add \<lparr>X = 3, Y = 4\<rparr> Point0 QueueEntry0 =
     \<lparr>sum_e = \<lparr>X = 3 / 25, Y = 4 / 25\<rparr>, speed = 0, weight = 1 / 25\<rparr>"
  "Add \<lparr>X = 0, Y = 0\<rparr> Point0 QueueEntry0 = \<lparr>sum_e = \<lparr>X = 0, Y = 0\<rparr>, speed = 0, weight = 1\<rparr>"
  "Add \<lparr>X = 1, Y = 0\<rparr> Point0 QueueEntry0 = \<lparr>sum_e = \<lparr>X = 1, Y = 0\<rparr>, speed = 0, weight = 1\<rparr>"
  "Add \<lparr>X = 0, Y = 2\<rparr> Point0 QueueEntry0 =
     \<lparr>sum_e = \<lparr>X = 0, Y = 1 / 2\<rparr>, speed = 0, weight = 1 / 4\<rparr>"
  by (simp_all add: Add_def QueueEntry0_def Point0_def P_add_def P_scale_def Dot_def Let_def)

theorem Update_merges_deferred_witness:
  "map_wf (queue ex_deferred) \<and> map_wf (deferred ex_deferred) \<and>
   distinct (looping_sounds ex_deferred (sources ex_deferred)) \<and>
   map fst (deferred ex_deferred) = [1, 3] \<and>
   deferred (Update Point0 Point0 ex_deferred) = [] \<and>
   map_of (queue (Update Point0 Point0 ex_deferred)) 3 =
     Some \<lparr>sum_e = \<lparr>X = 0, Y = 1 / 2\<rparr>, speed = 0, weight = 1 / 4\<rparr> \<and>
   map_of (queue (Update Point0 Point0 ex_deferred)) 1 =
     Some \<lparr>sum_e = \<lparr>X = 28 / 25, Y = 4 / 25\<rparr>, speed = 0, weight = 26 / 25\<rparr> \<and>
   map_of (queue (Update Point0 Point0 ex_deferred)) 4 =
     Some \<lparr>sum_e = \<lparr>X = 0, Y = 0\<rparr>, speed = 0, weight = 1\<rparr> \<and>
   queue (Step 1 (Update Point0 Point0 ex_deferred)) = [] \<and>
   sources (Step 1 (Update Point0 Point0 ex_deferred)) =
     [\<lparr>sound = 1, source = 7\<rparr>, \<lparr>sound = 3, source = 8\<rparr>, \<lparr>sound = 4, source = 9\<rparr>] \<and>
   al_log (Step 1 (Update Point0 Point0 ex_deferred)) =
     [alSource3f_POSITION 7 (14 / 13000) (2 / 13000) 0, alSource3f_VELOCITY 7 0 0 0,
      alGetSourcei_STATE 8,
      alSourcef_PITCH 8 1, alSourcef_GAIN 8 1, alSourcei_LOOPING 8 True, alSourcei_BUFFER 8 13,
      alSource3f_POSITION 8 0 (2 / 1000) 0, alSource3f_VELOCITY 8 0 0 0, alSourcePlay 8,
      alSourcef_PITCH 9 1, alSourcef_GAIN 9 1, alSourcei_LOOPING 9 False, alSourcei_BUFFER 9 14,
      alSource3f_POSITION 9 0 0 0, alSource3f_VELOCITY 9 0 0 0, alSourcePlay 9]"
proof -
  let ?U = "Update Point0 Point0 ex_deferred"
  have h1: "map_wf (queue ex_deferred)" and h2: "map_wf (deferred ex_deferred)"
    by (simp_all add: ex_deferred_maps map_wf_def)
  have h3: "distinct (looping_sounds ex_deferred (sources ex_deferred))"
    by (simp add: looping_sounds_def ex_deferred_fields ex_heap_def)
  note T = Update_merges_deferred [OF h1 h2 h3, where lp = Point0 and lv = Point0
      and p = Point0 and v = Point0 and sptr = 0 and tid = 0]
  from T have d: "deferred ?U = []" by blast
  from T have look: "\<And>k. map_of (queue ?U) k =
       (case map_of (deferred ex_deferred) k of
          None \<Rightarrow> map_of (queue ex_deferred) k
        | Some d \<Rightarrow>
            Some \<lparr>sum_e =
                    \<lparr>X = X (sum_e (case map_of (queue ex_deferred) k of
                                      None \<Rightarrow> QueueEntry0 | Some e \<Rightarrow> e)) + X (sum_e d),
                      Y = Y (sum_e (case map_of (queue ex_deferred) k of
                                      None \<Rightarrow> QueueEntry0 | Some e \<Rightarrow> e)) + Y (sum_e d)\<rparr>,
                  speed = speed (case map_of (queue ex_deferred) k of
                                   None \<Rightarrow> QueueEntry0 | Some e \<Rightarrow> e) + speed d,
                  weight = weight (case map_of (queue ex_deferred) k of
                                     None \<Rightarrow> QueueEntry0 | Some e \<Rightarrow> e) + weight d\<rparr>)"
    by blast
  from T have q: "queue (Step (mainThreadID ex_deferred) ?U) = []" by blast
  have l: "map_of (queue ?U) 3 = Some \<lparr>sum_e = \<lparr>X = 0, Y = 1 / 2\<rparr>, speed = 0, weight = 1 / 4\<rparr>"
    "map_of (queue ?U) 1 =
       Some \<lparr>sum_e = \<lparr>X = 28 / 25, Y = 4 / 25\<rparr>, speed = 0, weight = 26 / 25\<rparr>"
    "map_of (queue ?U) 4 = Some \<lparr>sum_e = \<lparr>X = 0, Y = 0\<rparr>, speed = 0, weight = 1\<rparr>"
    unfolding look ex_deferred_maps ex_deferred_entries
    by (simp_all add: QueueEntry0_def Point0_def)
  have U: "?U = ex_deferred\<lparr>listener := Point0, listenerVelocity := Point0,
      queue := [(1, \<lparr>sum_e = \<lparr>X = 28 / 25, Y = 4 / 25\<rparr>, speed = 0, weight = 26 / 25\<rparr>),
                (3, \<lparr>sum_e = \<lparr>X = 0, Y = 1 / 2\<rparr>, speed = 0, weight = 1 / 4\<rparr>),
                (4, \<lparr>sum_e = \<lparr>X = 0, Y = 0\<rparr>, speed = 0, weight = 1\<rparr>)],
      deferred := [], sync := sync ex_deferred @ [Touch_deferred, Touch_deferred]\<rparr>"
    unfolding Update_def ex_deferred_maps ex_deferred_entries
    by (simp add: Add_entry_def P_add_def QueueEntry0_def Point0_def)
  have pv: "Position \<lparr>sum_e = \<lparr>X = 28 / 25, Y = 4 / 25\<rparr>, speed = 0, weight = 26 / 25\<rparr> =
      \<lparr>X = 14 / 13, Y = 2 / 13\<rparr>"
    "Position \<lparr>sum_e = \<lparr>X = 0, Y = 1 / 2\<rparr>, speed = 0, weight = 1 / 4\<rparr> = \<lparr>X = 0, Y = 2\<rparr>"
    "Position \<lparr>sum_e = \<lparr>X = 0, Y = 0\<rparr>, speed = 0, weight = 1\<rparr> = \<lparr>X = 0, Y = 0\<rparr>"
    by (simp_all add: Position_def P_div_def)
  have vv: "Velocity \<lparr>sum_e = \<lparr>X = 28 / 25, Y = 4 / 25\<rparr>, speed = 0, weight = 26 / 25\<rparr> =
      \<lparr>X = 0, Y = 0\<rparr>"
    "Velocity \<lparr>sum_e = \<lparr>X = 0, Y = 1 / 2\<rparr>, speed = 0, weight = 1 / 4\<rparr> = \<lparr>X = 0, Y = 0\<rparr>"
    "Velocity \<lparr>sum_e = \<lparr>X = 0, Y = 0\<rparr>, speed = 0, weight = 1\<rparr> = \<lparr>X = 0, Y = 0\<rparr>"
    unfolding Velocity_def Let_def pv by (simp_all add: Length_def P_scale_def)
  have s: "sources (Step 1 ?U) =
      [\<lparr>sound = 1, source = 7\<rparr>, \<lparr>sound = 3, source = 8\<rparr>, \<lparr>sound = 4, source = 9\<rparr>]"
    unfolding U
    by (simp add: Step_def advance_phase_def allocate_phase_def ex_deferred_fields ex_heap_def
        map_erase_def start_source_def Let_def)
  have lg: "al_log (Step 1 ?U) =
     [alSource3f_POSITION 7 (14 / 13000) (2 / 13000) 0, alSource3f_VELOCITY 7 0 0 0,
      alGetSourcei_STATE 8,
      alSourcef_PITCH 8 1, alSourcef_GAIN 8 1, alSourcei_LOOPING 8 True, alSourcei_BUFFER 8 13,
      alSource3f_POSITION 8 0 (2 / 1000) 0, alSource3f_VELOCITY 8 0 0 0, alSourcePlay 8,
      alSourcef_PITCH 9 1, alSourcef_GAIN 9 1, alSourcei_LOOPING 9 False, alSourcei_BUFFER 9 14,
      alSource3f_POSITION 9 0 0 0, alSource3f_VELOCITY 9 0 0 0, alSourcePlay 9]"
    unfolding U
    by (simp add: Step_def advance_phase_def allocate_phase_def ex_deferred_fields ex_heap_def
        map_erase_def start_source_def start_calls_def Source_init_def Move_def Let_def pv vv)
  show ?thesis
    using h1 h2 h3 d l q s lg by (simp add: ex_deferred_maps ex_deferred_fields)
qed

end
